theory Spec2Isabelle
  imports Complex_Main "HOL-Library.Multiset"
begin

section \<open>htpdate 1.2.6: a shallow embedding of \<^verbatim>\<open>htpdate.c\<close>\<close>

text \<open>
  Conventions of the embedding.
  \<^item> Values of the C types \<^verbatim>\<open>int\<close>, \<^verbatim>\<open>long\<close>, \<^verbatim>\<open>long long\<close> and \<^verbatim>\<open>time_t\<close> are
    mathematical integers. Signed overflow is undefined in C: where an operand can be
    driven out of range by a remote server or by the configuration, the model checks the
    range and yields an explicit undefined outcome instead of a number.
  \<^item> A \<^verbatim>\<open>double\<close> is a real number, and a division by zero, whose result is an infinite
    double, is an undefined outcome of the model. The product that \<^verbatim>\<open>htpdate_adjtimex\<close>
    casts to a \<^verbatim>\<open>long\<close> is rounded to the nearest double before the cast; elsewhere
    rounding is not modelled.
  \<^item> Calls into the operating system are events of a trace; what the operating system
    answers is read from a record of answers.
\<close>

subsection \<open>Constants and macros\<close>

definition MAX_DRIFT :: int where
  "MAX_DRIFT = 32768000"

definition DEFAULT_TIME_LIMIT :: int where
  "DEFAULT_TIME_LIMIT = 31536000"

definition NO_TIME_LIMIT :: int where
  "NO_TIME_LIMIT = - 1"

definition DEFAULT_MIN_SLEEP :: int where
  "DEFAULT_MIN_SLEEP = 1800"

definition DEFAULT_MAX_SLEEP :: int where
  "DEFAULT_MAX_SLEEP = 115200"

definition INT_MAX :: int where
  "INT_MAX = 2147483647"

definition LONG_MAX :: int where
  "LONG_MAX = 9223372036854775807"

text \<open>\<^verbatim>\<open>#define sign(x) (x < 0 ? (-1) : 1)\<close>: zero counts as positive.\<close>

definition sign :: "int \<Rightarrow> int" where
  "sign x = (if x < 0 then - 1 else 1)"

text \<open>The range checks that stand for undefined signed overflow.\<close>

definition c_int :: "int \<Rightarrow> int option" where
  "c_int x = (if - INT_MAX - 1 \<le> x \<and> x \<le> INT_MAX then Some x else None)"

definition c_long :: "int \<Rightarrow> int option" where
  "c_long x = (if - LONG_MAX - 1 \<le> x \<and> x \<le> LONG_MAX then Some x else None)"

subsection \<open>\<^verbatim>\<open>insertsort\<close>\<close>

text \<open>
  The inner loop \<^verbatim>\<open>for ( j = i - 1; j >= 0 && a[j] > value; j-- ) a[j+1] = a[j];\<close>
  returns the array and the final \<^verbatim>\<open>j\<close>.
\<close>

function insertsort_inner :: "int list \<Rightarrow> int \<Rightarrow> int \<Rightarrow> int list \<times> int" where
  "insertsort_inner a j val =
     (if j \<ge> 0 \<and> a ! nat j > val
      then insertsort_inner (a[nat (j + 1) := a ! nat j]) (j - 1) val
      else (a, j))"
  by pat_completeness auto
termination
  by (relation "measure (\<lambda>(a, j, val). nat (j + 1))") auto

declare insertsort_inner.simps [simp del]

text \<open>The outer loop \<^verbatim>\<open>for ( i = 1; i < length; i++ )\<close>, entered at \<open>i\<close>.\<close>

function insertsort_outer :: "int list \<Rightarrow> int \<Rightarrow> int \<Rightarrow> int list" where
  "insertsort_outer a i len =
     (if i < len
      then (let val = a ! nat i;
                (a', j) = insertsort_inner a (i - 1) val
            in insertsort_outer (a'[nat (j + 1) := val]) (i + 1) len)
      else a)"
  by pat_completeness auto
termination
  by (relation "measure (\<lambda>(a, i, len). nat (len - i))") auto

declare insertsort_outer.simps [simp del]

definition insertsort :: "int list \<Rightarrow> int \<Rightarrow> int list" where
  "insertsort a len = insertsort_outer a 1 len"

text \<open>The body of the outer loop for one \<open>i\<close>, named for the proofs.\<close>

definition insert_step :: "int list \<Rightarrow> int \<Rightarrow> int list" where
  "insert_step a i = (let val = a ! nat i; (a', j) = insertsort_inner a (i - 1) val
                      in a'[nat (j + 1) := val])"

subsection \<open>The operating system: events and answers\<close>

record timeval =
  tv_sec :: int
  tv_usec :: int

text \<open>
  \<open>Printlog\<close> keeps the error flag and the format string of a \<^verbatim>\<open>printlog\<close> call; the
  formatted arguments are left out. \<open>Adjtimex_read\<close> is \<^verbatim>\<open>adjtimex\<close> with \<^verbatim>\<open>modes = 0\<close>,
  \<open>Adjtimex_freq\<close> is \<^verbatim>\<open>adjtimex\<close> with \<^verbatim>\<open>modes = MOD_FREQUENCY\<close> and the frequency written.
\<close>

datatype event =
    Printlog int string
  | Seteuid int
  | Adjtime timeval
  | Settimeofday timeval
  | Adjtimex_read
  | Adjtimex_freq int
  | Sleep int

text \<open>The calls that change the system clock.\<close>

fun clock_mutation :: "event \<Rightarrow> bool" where
  "clock_mutation (Adjtime tv) = True"
| "clock_mutation (Settimeofday tv) = True"
| "clock_mutation (Adjtimex_freq f) = True"
| "clock_mutation e = False"

text \<open>The calls that need or acquire privilege: the clock mutations and \<^verbatim>\<open>seteuid\<close>.\<close>

fun privileged_call :: "event \<Rightarrow> bool" where
  "privileged_call (Seteuid uid) = True"
| "privileged_call e = clock_mutation e"

record os =
  seteuid_rc :: "int \<Rightarrow> int"
  adjtime_rc :: "timeval \<Rightarrow> int"
  settimeofday_rc :: "timeval \<Rightarrow> int"
  adjtimex_rc :: "int \<Rightarrow> int"
  adjtimex_cur :: int
  gettimeofday :: timeval
  time_drift :: int
  time_start :: int

text \<open>
  \<open>adjtimex_cur\<close> is the \<^verbatim>\<open>tmx.freq\<close> that the reading \<^verbatim>\<open>adjtimex\<close> call fills in;
  \<open>time_drift\<close> is what \<^verbatim>\<open>time(NULL)\<close> returns where the drift is computed, \<open>time_start\<close>
  what it returns where \<^verbatim>\<open>starttime\<close> is set.

  A function of the program returns a value and the extended trace, or exits the process
  with a status, or has no behaviour that the model defines (\<open>Undef\<close>).
\<close>

datatype 'a res = Ret 'a "event list" | Exit int "event list" | Undef

definition res_bind :: "'a res \<Rightarrow> ('a \<Rightarrow> event list \<Rightarrow> 'b res) \<Rightarrow> 'b res" where
  "res_bind m f = (case m of Ret x tr \<Rightarrow> f x tr | Exit c tr \<Rightarrow> Exit c tr | Undef \<Rightarrow> Undef)"

text \<open>A cast \<^verbatim>\<open>(long)x\<close> of a double truncates towards zero; out of range it is undefined.\<close>

definition long_of_double :: "real \<Rightarrow> int option" where
  "long_of_double x = c_long (if x < 0 then \<lceil>x\<rceil> else \<lfloor>x\<rfloor>)"

definition swuid :: "os \<Rightarrow> int \<Rightarrow> event list \<Rightarrow> unit res" where
  "swuid os uid tr =
     (if seteuid_rc os uid \<noteq> 0
      then Exit 1 (tr @ [Seteuid uid, Printlog 1 ''seteuid() %i''])
      else Ret () (tr @ [Seteuid uid]))"

subsection \<open>\<^verbatim>\<open>setclock\<close>\<close>

function setclock :: "os \<Rightarrow> real \<Rightarrow> int \<Rightarrow> event list \<Rightarrow> int res" where
  "setclock os timedelta setmode tr =
     (if timedelta = 0 then Ret 0 (tr @ [Printlog 0 ''No time correction needed''])
      else if setmode = 0 then Ret 0 (tr @ [Printlog 0 ''Offset %.3f seconds''])
      else if setmode = 1 then
        (case long_of_double timedelta of
           None \<Rightarrow> Undef
         | Some sec \<Rightarrow>
            (case long_of_double ((timedelta - real_of_int sec) * 1000000) of
               None \<Rightarrow> Undef
             | Some usec \<Rightarrow>
                 res_bind (swuid os 0 (tr @ [Printlog 0 ''Adjusting %.3f seconds'']))
                   (\<lambda>u tr'. Ret (adjtime_rc os \<lparr>tv_sec = sec, tv_usec = usec\<rparr>)
                               (tr' @ [Adjtime \<lparr>tv_sec = sec, tv_usec = usec\<rparr>]))))
      else if setmode = 2 then
        (let timeofday = gettimeofday os;
             timedelta' = timedelta
               + (real_of_int (tv_sec timeofday) + real_of_int (tv_usec timeofday) * (1 / 1000000))
         in case long_of_double timedelta' of
              None \<Rightarrow> Undef
            | Some sec \<Rightarrow>
               (case long_of_double (timedelta' - real_of_int sec) of
                  None \<Rightarrow> Undef
                | Some rest \<Rightarrow>
                    res_bind
                      (swuid os 0 (tr @ [Printlog 0 ''Setting %.3f seconds'', Printlog 0 ''Set: %s'']))
                      (\<lambda>u tr'. Ret (settimeofday_rc os \<lparr>tv_sec = sec, tv_usec = rest * 1000000\<rparr>)
                                  (tr' @ [Settimeofday \<lparr>tv_sec = sec, tv_usec = rest * 1000000\<rparr>]))))
      else if setmode = 3 then setclock os timedelta 1 tr
      else Ret (- 1) tr)"
  by pat_completeness auto
termination
  by (relation "measure (\<lambda>(os, timedelta, setmode, tr). if setmode = 3 then 1 else 0)") auto

declare setclock.simps [simp del]

subsection \<open>\<^verbatim>\<open>htpdate_adjtimex\<close>\<close>

text \<open>
  The nearest double of a real number: 53 significant bits, a tie goes to the even
  significand. The range of the exponent is not modelled: below it the cast that follows
  gives 0 either way, above it the cast is undefined either way.
\<close>

definition round_half_even :: "real \<Rightarrow> int" where
  "round_half_even x =
     (if x - real_of_int \<lfloor>x\<rfloor> < 1 / 2 then \<lfloor>x\<rfloor>
      else if x - real_of_int \<lfloor>x\<rfloor> > 1 / 2 then \<lfloor>x\<rfloor> + 1
      else if even \<lfloor>x\<rfloor> then \<lfloor>x\<rfloor>
      else \<lfloor>x\<rfloor> + 1)"

definition double_of_real :: "real \<Rightarrow> real" where
  "double_of_real x =
     (if x = 0 then 0
      else real_of_int (round_half_even (x / power_int 2 (\<lfloor>log 2 \<bar>x\<bar>\<rfloor> - 52)))
           * power_int 2 (\<lfloor>log 2 \<bar>x\<bar>\<rfloor> - 52))"

text \<open>
  Lines 490 to 496: the frequency that will be written, from the frequency read and the
  drift. The product \<^verbatim>\<open>65536e6 * drift\<close> is a double before the cast.
  \<^verbatim>\<open>freq >> 1\<close> on a signed long is the arithmetic shift, that is, \<open>div 2\<close>.
\<close>

definition new_freq :: "int \<Rightarrow> real \<Rightarrow> int option" where
  "new_freq cur drift =
     (case long_of_double (double_of_real (65536000000 * drift)) of
        None \<Rightarrow> None
      | Some freq \<Rightarrow>
         (case c_long (cur + freq div 2) of
            None \<Rightarrow> None
          | Some f \<Rightarrow> Some (if f < - MAX_DRIFT \<or> f > MAX_DRIFT then sign f * MAX_DRIFT else f)))"

definition htpdate_adjtimex :: "os \<Rightarrow> real \<Rightarrow> event list \<Rightarrow> int res" where
  "htpdate_adjtimex os drift tr =
     (case new_freq (adjtimex_cur os) drift of
        None \<Rightarrow> Undef
      | Some f \<Rightarrow>
          res_bind (swuid os 0 (tr @ [Adjtimex_read, Printlog 0 ''Adjusting frequency %li'']))
            (\<lambda>u tr'. Ret (adjtimex_rc os f) (tr' @ [Adjtimex_freq f])))"

text \<open>
  The frequency as the specification words it: the equal-weight average of the current
  value and the candidate \<open>65536 * 10^6 * drift\<close>, clamped to \<open>\<plusminus> 32768000\<close>.
\<close>

definition spec_new_freq :: "int \<Rightarrow> real \<Rightarrow> real" where
  "spec_new_freq cur drift =
     max (- real_of_int MAX_DRIFT)
       (min (real_of_int MAX_DRIFT) ((real_of_int cur + 65536000000 * drift) / 2))"

subsection \<open>\<^verbatim>\<open>getHTTP\<close> and \<^verbatim>\<open>getHTTPdate\<close>\<close>

text \<open>
  The build without \<^verbatim>\<open>ENABLE_HTTPS\<close>. The network is a record of what it does to the one
  sampling call: the result of \<^verbatim>\<open>getaddrinfo\<close>, what \<^verbatim>\<open>socket\<close> and \<^verbatim>\<open>connect\<close> do for
  each address of the list, what the transfer does, and the two readings of the clock.
  \<open>Received buffer\<close> holds the content of \<^verbatim>\<open>buffer\<close> after \<^verbatim>\<open>recv\<close>, as a C string.
  \<open>strptime_gm\<close> stands for the C library: \<^verbatim>\<open>strptime\<close> with the format \<^verbatim>\<open>"%d %b %Y %T"\<close>
  followed by \<^verbatim>\<open>gmtmktime\<close>; it is \<open>None\<close> where \<^verbatim>\<open>strptime\<close> returns \<^verbatim>\<open>NULL\<close>.
\<close>

datatype address = Socket_fails | Connect_fails | Connects

datatype transfer = Send_fails | Recv_fails | Received string

record net =
  getaddrinfo_rc :: int
  addresses :: "address list"
  transfer :: transfer
  tod_start :: timeval
  tod_reply :: timeval
  strptime_gm :: "string \<Rightarrow> int option"

text \<open>
  The loop over the addresses, lines 328 to 343. It carries \<^verbatim>\<open>rc\<close> and whether
  \<^verbatim>\<open>server_s\<close> is a connected socket. A failing \<^verbatim>\<open>socket\<close> leaves \<^verbatim>\<open>rc\<close> as it was.
  The list of a \<^verbatim>\<open>getaddrinfo\<close> that succeeds has at least one address.
\<close>

fun connect_loop :: "int \<Rightarrow> bool \<Rightarrow> address list \<Rightarrow> int \<times> bool" where
  "connect_loop rc conn [] = (rc, conn)"
| "connect_loop rc conn (Socket_fails # res) = connect_loop rc False res"
| "connect_loop rc conn (Connect_fails # res) = connect_loop (- 1) False res"
| "connect_loop rc conn (Connects # res) = (0, True)"

definition getHTTP :: "bool \<Rightarrow> transfer \<Rightarrow> event list \<Rightarrow> int \<times> event list" where
  "getHTTP conn io tr =
     (if \<not> conn \<or> io = Send_fails then (0, tr @ [Printlog 1 ''Error sending''])
      else if io = Recv_fails then (0, tr)
      else (1, tr))"

text \<open>\<^verbatim>\<open>strstr\<close>: the suffix of the haystack that starts at the first occurrence.\<close>

fun strstr :: "string \<Rightarrow> string \<Rightarrow> string option" where
  "strstr [] needle = (if needle = [] then Some [] else None)"
| "strstr (c # cs) needle =
     (if take (length needle) (c # cs) = needle then Some (c # cs) else strstr cs needle)"

text \<open>
  The condition of lines 398 to 400: \<^verbatim>\<open>pdate\<close> when it holds. Once \<^verbatim>\<open>"Date: "\<close> is found,
  \<^verbatim>\<open>"date: "\<close> is not looked for.
\<close>

definition find_date :: "string \<Rightarrow> string option" where
  "find_date buffer =
     (case (case strstr buffer ''Date: '' of
              Some pdate \<Rightarrow> Some pdate
            | None \<Rightarrow> strstr buffer ''date: '') of
        None \<Rightarrow> None
      | Some pdate \<Rightarrow> if length pdate \<ge> 35 then Some pdate else None)"

text \<open>
  Where the program looks for the date, said without the search: \<open>needle\<close> occurs in the
  string at position \<open>i\<close>; it occurs there for the first time; it occurs nowhere. The date
  text of a buffer starts at the first \<^verbatim>\<open>"Date: "\<close> or, when there is none anywhere in the
  buffer, at the first \<^verbatim>\<open>"date: "\<close>.
\<close>

definition occurs_at :: "string \<Rightarrow> string \<Rightarrow> nat \<Rightarrow> bool" where
  "occurs_at needle str i =
     (i + length needle \<le> length str \<and> take (length needle) (drop i str) = needle)"

definition first_at :: "string \<Rightarrow> string \<Rightarrow> nat \<Rightarrow> bool" where
  "first_at needle str i = (occurs_at needle str i \<and> (\<forall>j<i. \<not> occurs_at needle str j))"

definition absent :: "string \<Rightarrow> string \<Rightarrow> bool" where
  "absent needle str = (\<forall>j\<le>length str. \<not> occurs_at needle str j)"

definition date_text :: "string \<Rightarrow> string \<Rightarrow> bool" where
  "date_text buffer pdate =
     (\<exists>i\<le>length buffer. pdate = drop i buffer
        \<and> (first_at ''Date: '' buffer i
           \<or> (absent ''Date: '' buffer \<and> first_at ''date: '' buffer i)))"

text \<open>
  \<^verbatim>\<open>getHTTPdate\<close> returns the \<^verbatim>\<open>long\<close> and the trace. Host and port only feed the log
  lines, whose arguments are left out. \<^verbatim>\<open>timevalue.tv_sec\<close> starts as \<^verbatim>\<open>LONG_MAX\<close>.
\<close>

definition getHTTPdate :: "bool \<Rightarrow> net \<Rightarrow> event list \<Rightarrow> int \<times> event list" where
  "getHTTPdate debug net tr =
     (if getaddrinfo_rc net \<noteq> 0
      then (0, tr @ [Printlog 1 ''%s host or service unavailable''])
      else
        (let (rc, conn) = connect_loop (getaddrinfo_rc net) False (addresses net)
         in if rc \<noteq> 0 then (0, tr @ [Printlog 1 ''%s connection failed''])
            else
              (let (rc, tr1) = getHTTP conn (transfer net) tr
               in if rc = 0
                  then (LONG_MAX - tv_sec (tod_start net),
                        tr1 @ [Printlog 1 ''error getting data from %s:%s''])
                  else
                    (case find_date (case transfer net of Received buffer \<Rightarrow> buffer | _ \<Rightarrow> [])
                     of
                       None \<Rightarrow>
                         (LONG_MAX - tv_sec (tod_reply net), tr1 @ [Printlog 1 ''%s no timestamp''])
                     | Some pdate \<Rightarrow>
                         (let remote_time = take 24 (drop 11 pdate);
                              (sec, tr2) =
                                (case strptime_gm net remote_time of
                                   Some t \<Rightarrow> (t, tr1)
                                 | None \<Rightarrow> (LONG_MAX, tr1 @ [Printlog 1 ''%s unknown time format'']))
                          in (sec - tv_sec (tod_reply net),
                              if debug then tr2 @ [Printlog 0 ''%-25s %s %s (%.3f) => %li'']
                              else tr2))))))"

subsection \<open>The end of a poll cycle in \<^verbatim>\<open>main\<close>\<close>

text \<open>
  The part of the cycle after the samples have been collected, lines 873 to 964. Its
  inputs are the array \<^verbatim>\<open>timedelta\<close> and \<^verbatim>\<open>validtimes\<close>, the number of admitted samples.
  \<open>persistent\<close> is \<^verbatim>\<open>daemonize || foreground\<close>; \<open>precision\<close> is the variable in microseconds
  as the loop finds it, which is 0 when a single server is given.
\<close>

record config =
  precision :: int
  persistent :: bool
  debug :: bool
  minsleep :: int
  maxsleep :: int
  sw_uid :: int

record state =
  sleeptime :: int
  setmode :: int
  starttime :: int
  drift :: real

text \<open>The values of the variables when the first cycle starts.\<close>

definition initial_state :: "config \<Rightarrow> int \<Rightarrow> state" where
  "initial_state cfg mode =
     \<lparr>sleeptime = minsleep cfg,
      setmode = (if persistent cfg \<and> mode = 0 then 1 else mode),
      starttime = 0, drift = 0\<rparr>"

text \<open>\<^verbatim>\<open>mean = timedelta[validtimes/2]\<close> after the sort.\<close>

definition median :: "int list \<Rightarrow> int \<Rightarrow> int" where
  "median timedelta validtimes = insertsort timedelta validtimes ! nat (validtimes div 2)"

text \<open>
  The filter loop, lines 883 to 888, entered at \<open>i\<close>. The difference
  \<^verbatim>\<open>timedelta[i]-mean\<close> is an \<^verbatim>\<open>int\<close>; \<^verbatim>\<open>sumtimes\<close> is a \<^verbatim>\<open>long long\<close>.
\<close>

function filter_loop :: "int list \<Rightarrow> int \<Rightarrow> int \<Rightarrow> int \<Rightarrow> int \<Rightarrow> int \<Rightarrow> (int \<times> int) option" where
  "filter_loop timedelta mean validtimes i sumtimes goodtimes =
     (if i < validtimes
      then (case c_int (timedelta ! nat i - mean) of
              None \<Rightarrow> None
            | Some d \<Rightarrow>
                if d \<le> 1 \<and> d \<ge> - 1
                then filter_loop timedelta mean validtimes (i + 1)
                       (sumtimes + timedelta ! nat i) (goodtimes + 1)
                else filter_loop timedelta mean validtimes (i + 1) sumtimes goodtimes)
      else Some (sumtimes, goodtimes))"
  by pat_completeness auto
termination
  by (relation "measure (\<lambda>(timedelta, mean, validtimes, i, sumtimes, goodtimes).
        nat (validtimes - i))") auto

declare filter_loop.simps [simp del]

text \<open>Sort, median and filter: \<open>(mean, sumtimes, goodtimes)\<close>.\<close>

definition consensus :: "int list \<Rightarrow> int \<Rightarrow> (int \<times> int \<times> int) option" where
  "consensus timedelta validtimes =
     (let mean = median timedelta validtimes
      in case filter_loop (insertsort timedelta validtimes) mean validtimes 0 0 0 of
           None \<Rightarrow> None
         | Some (sumtimes, goodtimes) \<Rightarrow> Some (mean, sumtimes, goodtimes))"

text \<open>Lines 905 and 906: the correction snaps to the precision.\<close>

definition snap :: "int \<Rightarrow> int \<Rightarrow> int \<Rightarrow> real \<Rightarrow> real" where
  "snap prec sumtimes goodtimes timeavg =
     (if prec \<noteq> 0 \<and> sumtimes < goodtimes \<and> sumtimes > - goodtimes
      then real_of_int prec / 1000000 * real_of_int (sign sumtimes)
      else timeavg)"

text \<open>\<^verbatim>\<open>sleeptime <<= 1\<close> on an \<^verbatim>\<open>int\<close>.\<close>

definition shl1 :: "int \<Rightarrow> int option" where
  "shl1 x = (if x < 0 then None else c_int (2 * x))"

text \<open>Lines 915 to 941: drift, frequency, and the reset of the polling interval.\<close>

definition after_correction :: "config \<Rightarrow> os \<Rightarrow> real \<Rightarrow> state \<Rightarrow> event list \<Rightarrow> state res" where
  "after_correction cfg os timeavg st tr =
     (if persistent cfg then
        res_bind
          (if starttime st \<noteq> 0 then
             (if time_drift os - starttime st = 0 then Undef
              else
                (let d = timeavg / real_of_int (time_drift os - starttime st);
                     tr1 = tr @ [Printlog 0 ''Drift %.2f PPM, %.2f s/day'']
                 in if setmode st = 3 then
                      res_bind (htpdate_adjtimex os d tr1)
                        (\<lambda>r tr2.
                           res_bind
                             (swuid os (sw_uid cfg)
                                (if r < 0 then tr2 @ [Printlog 1 ''Frequency change failed'']
                                 else tr2))
                             (\<lambda>u tr3. Ret (st\<lparr>drift := d, starttime := time_start os\<rparr>) tr3))
                    else Ret (st\<lparr>drift := d\<rparr>) tr1))
           else Ret (st\<lparr>starttime := time_start os\<rparr>) tr)
          (\<lambda>st1 tr4. Ret (st1\<lparr>sleeptime := minsleep cfg\<rparr>) (tr4 @ [Sleep DEFAULT_MIN_SLEEP]))
      else Ret st tr)"

text \<open>Lines 908 to 941: the correction \<open>timeavg\<close> is applied.\<close>

definition apply_correction :: "config \<Rightarrow> os \<Rightarrow> real \<Rightarrow> state \<Rightarrow> event list \<Rightarrow> state res" where
  "apply_correction cfg os timeavg st tr =
     res_bind (setclock os timeavg (setmode st) tr)
       (\<lambda>r tr1.
          res_bind
            (swuid os (sw_uid cfg) (if r < 0 then tr1 @ [Printlog 1 ''Time change failed''] else tr1))
            (\<lambda>u tr2. after_correction cfg os timeavg st tr2))"

text \<open>Lines 959 to 966: the mode of the next cycle, and the loop condition.\<close>

definition next_cycle :: "config \<Rightarrow> state \<Rightarrow> event list \<Rightarrow> state res" where
  "next_cycle cfg st tr =
     (let st' = (if setmode st \<noteq> 3 then st\<lparr>setmode := 1\<rparr> else st)
      in if persistent cfg then Ret st' tr else Exit 0 tr)"

definition poll_log :: "config \<Rightarrow> state \<Rightarrow> event list \<Rightarrow> state res" where
  "poll_log cfg st tr =
     Ret st (if debug cfg \<and> persistent cfg then tr @ [Printlog 0 ''poll %ld s''] else tr)"

text \<open>Lines 943 to 945: the polling interval grows.\<close>

definition increase_interval :: "config \<Rightarrow> state \<Rightarrow> event list \<Rightarrow> state res" where
  "increase_interval cfg st tr =
     (if sleeptime st < maxsleep cfg then
        (case shl1 (sleeptime st) of
           None \<Rightarrow> Undef
         | Some s \<Rightarrow> Ret (st\<lparr>sleeptime := s\<rparr>) tr)
      else Ret st tr)"

definition cycle_end :: "config \<Rightarrow> os \<Rightarrow> state \<Rightarrow> int list \<Rightarrow> int \<Rightarrow> event list \<Rightarrow> state res" where
  "cycle_end cfg os st timedelta validtimes tr =
     (case consensus timedelta validtimes of
        None \<Rightarrow> Undef
      | Some (mean, sumtimes, goodtimes) \<Rightarrow>
          res_bind
            (if goodtimes \<noteq> 0 then
               (let timeavg = real_of_int sumtimes / real_of_int goodtimes;
                    tr1 = (if debug cfg then tr @ [Printlog 0 ''#: %d mean: %d average: %.3f'']
                           else tr)
                in res_bind
                     (if sumtimes \<noteq> 0 \<or> \<not> persistent cfg then
                        apply_correction cfg os (snap (precision cfg) sumtimes goodtimes timeavg)
                          st tr1
                      else increase_interval cfg st tr1)
                     (poll_log cfg))
             else if persistent cfg then
               Ret st (tr @ [Printlog 1 ''No server suitable for synchronization found'',
                             Sleep (minsleep cfg)])
             else Exit 1 (tr @ [Printlog 1 ''No server suitable for synchronization found'']))
            (next_cycle cfg))"

subsection \<open>Admission of a sample\<close>

text \<open>
  Lines 837 to 846. The \<^verbatim>\<open>long\<close> that \<^verbatim>\<open>getHTTPdate\<close> returns is stored in the \<^verbatim>\<open>int\<close>
  \<^verbatim>\<open>timestamp\<close>: the conversion keeps the value modulo \<open>2^32\<close>, in two's complement. The
  sample enters \<^verbatim>\<open>timedelta\<close> under the sanity limit.
\<close>

definition int_of_long :: "int \<Rightarrow> int" where
  "int_of_long x = (x + 2147483648) mod 4294967296 - 2147483648"

definition admitted :: "int \<Rightarrow> int \<Rightarrow> bool" where
  "admitted timelimit timestamp =
     (timelimit = NO_TIME_LIMIT \<or> (timestamp < timelimit \<and> timestamp > - timelimit))"

subsection \<open>Concrete inputs\<close>

text \<open>
  An operating system that grants every call, whose kernel frequency value is 1000 and whose
  clock reads 2026-10-30 12:00:00 UTC.
\<close>

definition os_ok :: os where
  "os_ok = \<lparr>seteuid_rc = (\<lambda>uid. 0), adjtime_rc = (\<lambda>tv. 0), settimeofday_rc = (\<lambda>tv. 0),
            adjtimex_rc = (\<lambda>f. 0), adjtimex_cur = 1000,
            gettimeofday = \<lparr>tv_sec = 1793361600, tv_usec = 0\<rparr>,
            time_drift = 1793361600, time_start = 1793361600\<rparr>"

text \<open>
  A daemon started with \<^verbatim>\<open>-D -M 2000\<close> (the minimum interval is the default), and a single
  run with \<^verbatim>\<open>-p 50\<close> against three servers.
\<close>

definition cfg_daemon :: config where
  "cfg_daemon = \<lparr>precision = 0, persistent = True, debug = False,
                  minsleep = 1800, maxsleep = 2000, sw_uid = 0\<rparr>"

definition cfg_precise :: config where
  "cfg_precise = \<lparr>precision = 50000, persistent = False, debug = False,
                   minsleep = 1800, maxsleep = 115200, sw_uid = 0\<rparr>"

text \<open>The same precision in a daemon with the default intervals.\<close>

definition cfg_precise_daemon :: config where
  "cfg_precise_daemon = \<lparr>precision = 50000, persistent = True, debug = False,
                          minsleep = 1800, maxsleep = 115200, sw_uid = 0\<rparr>"

text \<open>
  Networks: a name that does not resolve; a host that refuses the connection at both
  addresses that get a socket; a host for which no socket can be made; a server in step
  with the local clock, reached at the second address; a reply without a date; a reply
  whose date has no month; a reply without a Date header, whose text has \<^verbatim>\<open>"Date: "\<close> inside
  another header, read 100 seconds after the date it carries.
  \<open>libc_example\<close> is the C library on these inputs: it reads the one date of the examples.
\<close>

definition crlf :: string where
  "crlf = [CHR 0x0D, CHR 0x0A]"

definition libc_example :: "string \<Rightarrow> int option" where
  "libc_example remote_time =
     (if take 20 remote_time = ''30 Oct 2026 12:00:00'' then Some 1793361600 else None)"

definition net_unresolved :: net where
  "net_unresolved = \<lparr>getaddrinfo_rc = - 2, addresses = [], transfer = Send_fails,
     tod_start = \<lparr>tv_sec = 1793361600, tv_usec = 100000\<rparr>,
     tod_reply = \<lparr>tv_sec = 1793361600, tv_usec = 530000\<rparr>,
     strptime_gm = libc_example\<rparr>"

definition net_refused :: net where
  "net_refused = \<lparr>getaddrinfo_rc = 0, addresses = [Socket_fails, Connect_fails, Connect_fails],
     transfer = Send_fails,
     tod_start = \<lparr>tv_sec = 1793361600, tv_usec = 100000\<rparr>,
     tod_reply = \<lparr>tv_sec = 1793361600, tv_usec = 530000\<rparr>,
     strptime_gm = libc_example\<rparr>"

definition net_no_socket :: net where
  "net_no_socket = \<lparr>getaddrinfo_rc = 0, addresses = [Socket_fails, Socket_fails],
     transfer = Send_fails,
     tod_start = \<lparr>tv_sec = 1793361600, tv_usec = 100000\<rparr>,
     tod_reply = \<lparr>tv_sec = 1793361600, tv_usec = 530000\<rparr>,
     strptime_gm = libc_example\<rparr>"

definition net_in_sync :: net where
  "net_in_sync = \<lparr>getaddrinfo_rc = 0, addresses = [Connect_fails, Connects],
     transfer = Received (''HTTP/1.1 200 OK'' @ crlf
                          @ ''Date: Fri, 30 Oct 2026 12:00:00 GMT'' @ crlf @ crlf),
     tod_start = \<lparr>tv_sec = 1793361600, tv_usec = 100000\<rparr>,
     tod_reply = \<lparr>tv_sec = 1793361600, tv_usec = 530000\<rparr>,
     strptime_gm = libc_example\<rparr>"



definition net_other_header :: net where
  "net_other_header = \<lparr>getaddrinfo_rc = 0, addresses = [Connects],
     transfer = Received (''HTTP/1.1 200 OK'' @ crlf
                          @ ''X-Build-Date: Fri, 30 Oct 2026 12:00:00 GMT'' @ crlf @ crlf),
     tod_start = \<lparr>tv_sec = 1793361700, tv_usec = 100000\<rparr>,
     tod_reply = \<lparr>tv_sec = 1793361700, tv_usec = 530000\<rparr>,
     strptime_gm = libc_example\<rparr>"

section \<open>Properties\<close>

subsection \<open>The insertion sort sorts the first \<open>length\<close> cells in place\<close>

text \<open>
  The inner loop, started just left of a cell, shifts the larger elements one cell to the
  right and stops left of a hole: the cell that the value will be written to.
\<close>

lemma inner_shape:
  "insertsort_inner (xs @ y # zs) (int (length xs) - 1) v = (a', j') \<Longrightarrow>
   \<exists>us vs h. xs = us @ vs \<and> (\<forall>x\<in>set vs. v < x) \<and> (us = [] \<or> last us \<le> v) \<and>
     j' = int (length us) - 1 \<and> a' = us @ h # vs @ zs"
proof (induction xs arbitrary: y zs a' j' rule: rev_induct)
  case Nil
  then show ?case by (auto simp add: insertsort_inner.simps)
next
  case (snoc x xs)
  show ?case
  proof (cases "x > v")
    case True
    have step: "insertsort_inner ((xs @ [x]) @ y # zs) (int (length (xs @ [x])) - 1) v
        = insertsort_inner (xs @ x # (x # zs)) (int (length xs) - 1) v"
      using True
      by (subst insertsort_inner.simps) (simp add: nth_append list_update_append nat_add_distrib)
    with snoc.prems have "insertsort_inner (xs @ x # (x # zs)) (int (length xs) - 1) v = (a', j')"
      by simp
    from snoc.IH [OF this] obtain us vs h where
      h: "xs = us @ vs" "\<forall>x\<in>set vs. v < x" "us = [] \<or> last us \<le> v"
         "j' = int (length us) - 1" "a' = us @ h # vs @ x # zs"
      by blast
    show ?thesis
      apply (rule exI [of _ us], rule exI [of _ "vs @ [x]"], rule exI [of _ h])
      using h True by auto
  next
    case False
    have "insertsort_inner ((xs @ [x]) @ y # zs) (int (length (xs @ [x])) - 1) v
        = ((xs @ [x]) @ y # zs, int (length (xs @ [x])) - 1)"
      using False
      by (subst insertsort_inner.simps) (simp add: nth_append)
    with snoc.prems have "a' = (xs @ [x]) @ y # zs" "j' = int (length (xs @ [x])) - 1"
      by simp_all
    then show ?thesis
      apply -
      apply (rule exI [of _ "xs @ [x]"], rule exI [of _ "[]"], rule exI [of _ y])
      using False by auto
  qed
qed

lemma sorted_le_last: "sorted us \<Longrightarrow> x \<in> set us \<Longrightarrow> x \<le> last (us :: int list)"
  by (induction us) auto

lemma sorted_insert_mid:
  assumes s: "sorted (us @ vs)" and g: "\<forall>x\<in>set vs. v < x" and l: "us = [] \<or> last us \<le> v"
  shows "sorted (us @ v # (vs :: int list))"
proof -
  have su: "sorted us" using s by (simp add: sorted_append)
  have "\<forall>x\<in>set us. x \<le> v"
  proof
    fix x assume x: "x \<in> set us"
    then have ne: "us \<noteq> []" by auto
    have "x \<le> last us" using su x by (rule sorted_le_last)
    with l ne show "x \<le> v" by auto
  qed
  with s g show ?thesis
    by (auto simp: sorted_append less_imp_le)
qed

lemma insert_step_props:
  assumes i: "i < length a" and s: "sorted (take i a)"
  shows "length (insert_step a (int i)) = length a
       \<and> sorted (take (Suc i) (insert_step a (int i)))
       \<and> mset (take (Suc i) (insert_step a (int i))) = mset (take (Suc i) a)
       \<and> drop (Suc i) (insert_step a (int i)) = drop (Suc i) a"
proof -
  let ?xs = "take i a" and ?zs = "drop (Suc i) a" and ?v = "a ! i"
  have a: "a = ?xs @ ?v # ?zs" using i by (simp add: id_take_nth_drop)
  have lx: "length ?xs = i" using i by simp
  obtain a' j' where r: "insertsort_inner a (int i - 1) ?v = (a', j')" by force
  have "insertsort_inner (?xs @ ?v # ?zs) (int (length ?xs) - 1) ?v = (a', j')"
    using r lx a by metis
  from inner_shape [OF this] obtain us vs h where
    h: "?xs = us @ vs" "\<forall>x\<in>set vs. ?v < x" "us = [] \<or> last us \<le> ?v"
       "j' = int (length us) - 1" "a' = us @ h # vs @ ?zs"
    by blast
  have st: "insert_step a (int i) = us @ ?v # vs @ ?zs"
    using r h(4,5) by (simp add: insert_step_def)
  have luv: "length us + length vs = i" using h(1) lx by (metis length_append)
  then have d1: "Suc i - length us = Suc (length vs)" by arith
  have tk: "take (Suc i) (insert_step a (int i)) = us @ ?v # vs"
    using luv by (simp add: st d1)
  have dr: "drop (Suc i) (insert_step a (int i)) = ?zs"
    using luv by (simp add: st d1)
  have so: "sorted (us @ ?v # vs)"
  proof (rule sorted_insert_mid)
    show "sorted (us @ vs)" using s h(1) by simp
  qed (use h in simp_all)
  have ms: "mset (take (Suc i) a) = mset (us @ vs) + {#?v#}"
    using i h(1) by (simp add: take_Suc_conv_app_nth)
  have len: "length (insert_step a (int i)) = length us + Suc (length vs + length ?zs)"
    by (simp add: st)
  have len2: "length (insert_step a (int i)) = length a"
    using luv i unfolding len by simp
  show ?thesis
    unfolding tk dr using so ms len2 by simp
qed

lemma outer_unfold:
  "insertsort_outer a i len =
     (if i < len then insertsort_outer (insert_step a i) (i + 1) len else a)"
  by (subst insertsort_outer.simps) (simp add: insert_step_def Let_def split: prod.splits)

lemma mset_take_extend:
  assumes t: "mset (take k b) = mset (take k a)" and d: "drop k b = drop k a" and kn: "k \<le> n"
  shows "mset (take n b) = mset (take n a)"
proof -
  have "take n b = take k b @ take (n - k) (drop k b)"
    using kn by (metis le_add_diff_inverse take_add)
  moreover have "take n a = take k a @ take (n - k) (drop k a)"
    using kn by (metis le_add_diff_inverse take_add)
  ultimately show ?thesis using t d by simp
qed

lemma drop_extend:
  assumes d: "drop k b = drop k (a :: int list)" and kn: "k \<le> n"
  shows "drop n b = drop n a"
proof -
  have "drop n b = drop (n - k) (drop k b)" using kn by simp
  also have "\<dots> = drop (n - k) (drop k a)" using d by simp
  also have "\<dots> = drop n a" using kn by simp
  finally show ?thesis .
qed

lemma outer_props:
  "i \<le> n \<Longrightarrow> n \<le> length a \<Longrightarrow> sorted (take i a) \<Longrightarrow>
   length (insertsort_outer a (int i) (int n)) = length a
   \<and> sorted (take n (insertsort_outer a (int i) (int n)))
   \<and> mset (take n (insertsort_outer a (int i) (int n))) = mset (take n a)
   \<and> drop n (insertsort_outer a (int i) (int n)) = drop n a"
proof (induction "n - i" arbitrary: i a)
  case 0
  then have "i = n" by simp
  then have "insertsort_outer a (int i) (int n) = a"
    by (subst outer_unfold) simp
  with 0 \<open>i = n\<close> show ?case by simp
next
  case (Suc d)
  then have lt: "i < n" and il: "i < length a" by arith+
  define b where "b = insert_step a (int i)"
  from insert_step_props [OF il Suc.prems(3)] have
    b1: "length b = length a" and b2: "sorted (take (Suc i) b)" and
    b3: "mset (take (Suc i) b) = mset (take (Suc i) a)" and
    b4: "drop (Suc i) b = drop (Suc i) a"
    unfolding b_def by blast+
  have "insertsort_outer a (int i) (int n) = insertsort_outer b (int i + 1) (int n)"
    using lt unfolding b_def by (subst outer_unfold) simp
  moreover have "int i + 1 = int (Suc i)" by simp
  ultimately have u: "insertsort_outer a (int i) (int n) = insertsort_outer b (int (Suc i)) (int n)"
    by (simp only:)
  define r where "r = insertsort_outer b (int (Suc i)) (int n)"
  have d: "d = n - Suc i" using Suc.hyps(2) by arith
  have le: "Suc i \<le> n" using lt by simp
  have nb: "n \<le> length b" using Suc.prems(2) b1 by simp
  from Suc.hyps(1) [OF d le nb b2] have
    r1: "length r = length b" and r2: "sorted (take n r)" and
    r3: "mset (take n r) = mset (take n b)" and r4: "drop n r = drop n b"
    unfolding r_def by blast+
  have m: "mset (take n b) = mset (take n a)"
    using b3 b4 le by (rule mset_take_extend)
  have dr: "drop n b = drop n a"
    using b4 le by (rule drop_extend)
  have "length r = length a" using r1 b1 by (rule trans)
  moreover have "mset (take n r) = mset (take n a)" using r3 m by (rule trans)
  moreover have "drop n r = drop n a" using r4 dr by (rule trans)
  ultimately show ?case unfolding u r_def [symmetric] using r2 by blast
qed

lemma insertsort_props:
  assumes n: "n \<le> length a"
  shows "length (insertsort a (int n)) = length a
   \<and> sorted (take n (insertsort a (int n)))
   \<and> mset (take n (insertsort a (int n))) = mset (take n a)
   \<and> drop n (insertsort a (int n)) = drop n a"
proof (cases "1 \<le> n")
  case True
  have s1: "sorted (take 1 a)" by (cases a) simp_all
  show ?thesis
    using outer_props [of 1 n a] True n s1 by (simp add: insertsort_def)
next
  case False
  then have "n = 0" by simp
  then show ?thesis by (simp add: insertsort_def outer_unfold)
qed

lemma insertsort_is_sort:
  assumes n: "n \<le> length a"
  shows "take n (insertsort a (int n)) = sort (take n a)"
proof -
  from insertsort_props [OF n] have
    "mset (take n (insertsort a (int n))) = mset (take n a)"
    "sorted (take n (insertsort a (int n)))" by simp_all
  then have "sort (take n a) = take n (insertsort a (int n))"
    by (rule properties_for_sort)
  then show ?thesis by simp
qed

lemma inner_go:
  "j \<ge> 0 \<Longrightarrow> a ! nat j > val \<Longrightarrow>
   insertsort_inner a j val = insertsort_inner (a[nat (j + 1) := a ! nat j]) (j - 1) val"
  by (subst insertsort_inner.simps) simp

lemma inner_stop:
  "\<not> (j \<ge> 0 \<and> a ! nat j > val) \<Longrightarrow> insertsort_inner a j val = (a, j)"
  by (subst insertsort_inner.simps) (rule if_not_P)

lemma outer_go:
  "i < len \<Longrightarrow> insertsort_outer a i len = insertsort_outer (insert_step a i) (i + 1) len"
  by (subst outer_unfold) simp

lemma outer_stop:
  "\<not> i < len \<Longrightarrow> insertsort_outer a i len = a"
  by (subst outer_unfold) simp

text \<open>
  C5. For a non-empty collection of admitted samples, the first \<open>n\<close> cells of the array are,
  after \<^verbatim>\<open>insertsort\<close>, sorted ascending and a permutation of the first \<open>n\<close> cells before it,
  and the median that the cycle selects is the element at index \<open>n div 2\<close> of the sorted
  samples.
\<close>

theorem C5_insertsort_sorted_median:
  assumes "0 < n" and "n \<le> length timedelta"
  shows "sorted (take n (insertsort timedelta (int n)))
       \<and> mset (take n (insertsort timedelta (int n))) = mset (take n timedelta)
       \<and> median timedelta (int n) = sort (take n timedelta) ! (n div 2)"
proof -
  have k: "n div 2 < n" using assms(1) by simp
  have "median timedelta (int n) = insertsort timedelta (int n) ! (n div 2)"
    by (simp add: median_def nat_div_distrib)
  also have "\<dots> = take n (insertsort timedelta (int n)) ! (n div 2)"
    using k by simp
  also have "\<dots> = sort (take n timedelta) ! (n div 2)"
    using insertsort_is_sort [OF assms(2)] by simp
  finally show ?thesis
    using insertsort_props [OF assms(2)] by simp
qed

theorem C5_insertsort_sorted_median_witness:
  "sorted (take 3 (insertsort [5, 3, 2, 9, 7] 3))
   \<and> mset (take 3 (insertsort [5, 3, 2, 9, 7] 3)) = mset [5, 3, 2]
   \<and> median [5, 3, 2, 9, 7] 3 = 3"
  using C5_insertsort_sorted_median [of 3 "[5, 3, 2, 9, 7]"] by simp


subsection \<open>\<^verbatim>\<open>setclock\<close> and \<^verbatim>\<open>htpdate_adjtimex\<close>\<close>

text \<open>The function, one mode at a time.\<close>

lemma setclock_zero:
  "setclock os 0 mode tr = Ret 0 (tr @ [Printlog 0 ''No time correction needed''])"
  by (subst setclock.simps) simp

lemma rest_zero:
  fixes x :: real
  defines "t \<equiv> (if x < 0 then \<lceil>x\<rceil> else \<lfloor>x\<rfloor>)"
  shows "(if x - real_of_int t < 0 then \<lceil>x - real_of_int t\<rceil> else \<lfloor>x - real_of_int t\<rfloor>) = 0"
proof (cases "x < 0")
  case True
  then have t: "t = \<lceil>x\<rceil>" by (simp add: t_def)
  have "x - real_of_int \<lceil>x\<rceil> \<le> 0" and "- 1 < x - real_of_int \<lceil>x\<rceil>" by linarith+
  then have "\<lceil>x - real_of_int \<lceil>x\<rceil>\<rceil> = 0"
    and "\<not> x - real_of_int \<lceil>x\<rceil> < 0 \<Longrightarrow> \<lfloor>x - real_of_int \<lceil>x\<rceil>\<rfloor> = 0"
    by linarith+
  then show ?thesis unfolding t by (cases "x - real_of_int \<lceil>x\<rceil> < 0") simp_all
next
  case False
  then have t: "t = \<lfloor>x\<rfloor>" by (simp add: t_def)
  have nn: "\<not> x - real_of_int \<lfloor>x\<rfloor> < 0" and "x - real_of_int \<lfloor>x\<rfloor> < 1" by linarith+
  then have "\<lfloor>x - real_of_int \<lfloor>x\<rfloor>\<rfloor> = 0" by linarith
  then show ?thesis unfolding t using nn by simp
qed

lemma long_of_double_rest:
  "long_of_double x = Some sec \<Longrightarrow> long_of_double (x - real_of_int sec) = Some 0"
  unfolding long_of_double_def
  using rest_zero [of x] by (auto simp: c_long_def LONG_MAX_def split: if_splits)

lemma setclock_set:
  "timedelta \<noteq> 0 \<Longrightarrow> setclock os timedelta 2 tr =
     (let timeofday = gettimeofday os;
          timedelta' = timedelta
            + (real_of_int (tv_sec timeofday) + real_of_int (tv_usec timeofday) * (1 / 1000000))
      in case long_of_double timedelta' of
           None \<Rightarrow> Undef
         | Some sec \<Rightarrow>
            (case long_of_double (timedelta' - real_of_int sec) of
               None \<Rightarrow> Undef
             | Some rest \<Rightarrow>
                 res_bind
                   (swuid os 0 (tr @ [Printlog 0 ''Setting %.3f seconds'', Printlog 0 ''Set: %s'']))
                   (\<lambda>u tr'. Ret (settimeofday_rc os \<lparr>tv_sec = sec, tv_usec = rest * 1000000\<rparr>)
                               (tr' @ [Settimeofday \<lparr>tv_sec = sec, tv_usec = rest * 1000000\<rparr>]))))"
  by (subst setclock.simps) simp

lemma setclock_adjust:
  "timedelta \<noteq> 0 \<Longrightarrow> setclock os timedelta 1 tr =
     (case long_of_double timedelta of
        None \<Rightarrow> Undef
      | Some sec \<Rightarrow>
         (case long_of_double ((timedelta - real_of_int sec) * 1000000) of
            None \<Rightarrow> Undef
          | Some usec \<Rightarrow>
              res_bind (swuid os 0 (tr @ [Printlog 0 ''Adjusting %.3f seconds'']))
                (\<lambda>u tr'. Ret (adjtime_rc os \<lparr>tv_sec = sec, tv_usec = usec\<rparr>)
                            (tr' @ [Adjtime \<lparr>tv_sec = sec, tv_usec = usec\<rparr>]))))"
  by (subst setclock.simps) simp

lemma setclock_freq:
  "timedelta \<noteq> 0 \<Longrightarrow> setclock os timedelta 3 tr = setclock os timedelta 1 tr"
  by (subst setclock.simps) simp

lemma setclock_query:
  "timedelta \<noteq> 0 \<Longrightarrow> setclock os timedelta 0 tr = Ret 0 (tr @ [Printlog 0 ''Offset %.3f seconds''])"
  by (subst setclock.simps) simp

lemma setclock_set_usec:
  assumes nz: "timedelta \<noteq> 0" and ret: "setclock os timedelta 2 tr = Ret r tr'"
  shows "\<exists>sec. tr' = tr @ [Printlog 0 ''Setting %.3f seconds'', Printlog 0 ''Set: %s'',
                         Seteuid 0, Settimeofday \<lparr>tv_sec = sec, tv_usec = 0\<rparr>]"
proof -
  define x where "x = timedelta
     + (real_of_int (tv_sec (gettimeofday os)) + real_of_int (tv_usec (gettimeofday os)) * (1 / 1000000))"
  show ?thesis
  proof (cases "long_of_double x")
    case None
    with ret show ?thesis
      unfolding setclock_set [OF nz] Let_def x_def [symmetric] by simp
  next
    case (Some sec)
    then have "long_of_double (x - real_of_int sec) = Some 0" by (rule long_of_double_rest)
    with Some ret show ?thesis
      unfolding setclock_set [OF nz] Let_def x_def [symmetric]
      by (auto simp: res_bind_def swuid_def split: if_splits)
  qed
qed

lemma clamp_eq: "(if f < - MAX_DRIFT \<or> f > MAX_DRIFT then sign f * MAX_DRIFT else f)
   = max (- MAX_DRIFT) (min MAX_DRIFT f)"
  by (auto simp: MAX_DRIFT_def sign_def)

text \<open>
  C8. In every mode, a correction of exactly 0 returns 0 and only adds the line
  "No time correction needed" to the trace: no \<^verbatim>\<open>seteuid\<close>, no call that changes the clock.
\<close>

theorem C8_zero_offset_no_call:
  "setclock os 0 mode tr = Ret 0 (tr @ [Printlog 0 ''No time correction needed''])"
  by (rule setclock_zero)

theorem C8_zero_offset_no_call_witness:
  "setclock os_ok 0 2 [] = Ret 0 [Printlog 0 ''No time correction needed'']
   \<and> \<not> privileged_call (Printlog 0 ''No time correction needed'')"
  using C8_zero_offset_no_call [of os_ok 2 "[]"] by simp

text \<open>
  C10. In mode 2 (set time) the claim wants the time written to be the current time plus the
  offset, fraction included. The program writes the whole seconds and 0 microseconds: the
  cast in \<^verbatim>\<open>(long)(timedelta - timeofday.tv_sec) * 1000000\<close> applies to the fraction before
  the multiplication. At 12:00:00.000000 and an offset of half a second the time written
  is 12:00:00.000000, not 12:00:00.500000.
\<close>

theorem C10_hard_set_drops_fraction:
  "setclock os_ok (1 / 2) 2 [] =
     Ret 0 [Printlog 0 ''Setting %.3f seconds'', Printlog 0 ''Set: %s'', Seteuid 0,
            Settimeofday \<lparr>tv_sec = 1793361600, tv_usec = 0\<rparr>]"
  by (simp add: setclock_set os_ok_def long_of_double_def c_long_def LONG_MAX_def
        res_bind_def swuid_def Let_def)

theorem C10_hard_set_drops_fraction_witness:
  "\<exists>tr. setclock os_ok (1 / 2) 2 [] = Ret 0 tr
        \<and> last tr = Settimeofday \<lparr>tv_sec = 1793361600, tv_usec = 0\<rparr>"
  using C10_hard_set_drops_fraction by simp

text \<open>The sibling path, mode 1, keeps the fraction of the same offset.\<close>

lemma smooth_adjust_keeps_fraction:
  "setclock os_ok (1 / 2) 1 [] =
     Ret 0 [Printlog 0 ''Adjusting %.3f seconds'', Seteuid 0,
            Adjtime \<lparr>tv_sec = 0, tv_usec = 500000\<rparr>]"
  by (simp add: setclock_adjust os_ok_def long_of_double_def c_long_def LONG_MAX_def
        res_bind_def swuid_def Let_def)

text \<open>The nearest double, once the binade of the number is known.\<close>

lemma double_of_real_at:
  assumes "power_int 2 k \<le> \<bar>x\<bar>" and "\<bar>x\<bar> < power_int 2 (k + 1)"
  shows "double_of_real x =
           real_of_int (round_half_even (x / power_int 2 (k - 52))) * power_int 2 (k - 52)"
proof -
  have "(0 :: real) < power_int 2 k" by (simp add: power_int_def)
  with assms(1) have pos: "0 < \<bar>x\<bar>" by linarith
  then have nz: "x \<noteq> 0" by simp
  have p: "(2 :: real) powr real_of_int j = power_int 2 j" for j
    by (rule powr_real_of_int') simp_all
  have "\<lfloor>log 2 \<bar>x\<bar>\<rfloor> = k"
    using assms pos p [of k] p [of "k + 1"] by (subst floor_log_eq_powr_iff) simp_all
  then show ?thesis using nz by (simp add: double_of_real_def)
qed

lemma double_62500: "double_of_real (65536000000 * (1 / 1048576)) = 62500"
  by (subst double_of_real_at [of 15]) (simp_all add: power_int_def power_one_over round_half_even_def)

lemma double_rounds_up:
  "double_of_real (65536000000 * (4505427525869255 / 9223372036854775808)) = 32012988"
  by (subst double_of_real_at [of 24]) (simp_all add: power_int_def power_one_over round_half_even_def)

text \<open>
  For every current frequency and drift, the program writes the current frequency plus half
  of the candidate, clamped; the candidate is the double product cut to a \<^verbatim>\<open>long\<close>.
\<close>

lemma adjtimex_adds_half_candidate:
  assumes "long_of_double (double_of_real (65536000000 * d)) = Some freq"
      and "c_long (adjtimex_cur os + freq div 2) = Some f"
      and "seteuid_rc os 0 = 0"
  shows "htpdate_adjtimex os d tr =
           Ret (adjtimex_rc os (max (- MAX_DRIFT) (min MAX_DRIFT (adjtimex_cur os + freq div 2))))
             (tr @ [Adjtimex_read, Printlog 0 ''Adjusting frequency %li'', Seteuid 0,
                    Adjtimex_freq (max (- MAX_DRIFT) (min MAX_DRIFT (adjtimex_cur os + freq div 2)))])"
proof -
  have f: "f = adjtimex_cur os + freq div 2"
    using assms(2) by (simp add: c_long_def split: if_splits)
  have "new_freq (adjtimex_cur os) d = Some (max (- MAX_DRIFT) (min MAX_DRIFT f))"
    using assms(1,2) by (simp add: new_freq_def clamp_eq)
  then show ?thesis
    using assms(3) f by (simp add: htpdate_adjtimex_def res_bind_def swuid_def)
qed

text \<open>
  The rounding of the product decides the candidate: at the drift \<open>4505427525869255 / 2^63\<close>
  the real product lies below 32012988 and the double product is 32012988.
\<close>

lemma candidate_is_rounded:
  "new_freq 0 (4505427525869255 / 9223372036854775808) = Some 16006494"
  by (simp only: new_freq_def double_rounds_up)
     (simp add: long_of_double_def c_long_def LONG_MAX_def MAX_DRIFT_def sign_def)

text \<open>
  C2. The claim wants the frequency written to be the equal-weight average of the current
  frequency and the candidate \<open>65536 * 10^6 * drift\<close>, clamped; so does the comment of the
  program, "Take the average of current and new drift values". The program writes the
  current frequency plus half of the candidate: with a current frequency of 1000 and a
  drift of \<open>2^-20\<close> the candidate is 62500, the average is 31750, and the program writes
  \<open>1000 + 62500 div 2 = 32250\<close>.
\<close>

theorem C2_not_the_average:
  "htpdate_adjtimex os_ok (1 / 1048576) [] =
     Ret 0 [Adjtimex_read, Printlog 0 ''Adjusting frequency %li'', Seteuid 0, Adjtimex_freq 32250]
   \<and> spec_new_freq (adjtimex_cur os_ok) (1 / 1048576) = 31750"
proof -
  have "new_freq 1000 (1 / 1048576) = Some 32250"
    by (simp only: new_freq_def double_62500)
       (simp add: long_of_double_def c_long_def LONG_MAX_def MAX_DRIFT_def sign_def)
  then show ?thesis
    by (simp add: htpdate_adjtimex_def spec_new_freq_def os_ok_def MAX_DRIFT_def
          res_bind_def swuid_def)
qed

theorem C2_not_the_average_witness:
  "\<exists>tr. htpdate_adjtimex os_ok (1 / 1048576) [] = Ret 0 tr \<and> last tr = Adjtimex_freq 32250"
  using C2_not_the_average by simp

subsection \<open>The filter loop and the consensus\<close>

lemma filter_go_in:
  "i < n \<Longrightarrow> c_int (a ! nat i - m) = Some d \<Longrightarrow> d \<le> 1 \<Longrightarrow> - 1 \<le> d \<Longrightarrow>
   filter_loop a m n i s g = filter_loop a m n (i + 1) (s + a ! nat i) (g + 1)"
  by (subst filter_loop.simps) simp

lemma filter_go_out:
  "i < n \<Longrightarrow> c_int (a ! nat i - m) = Some d \<Longrightarrow> \<not> (d \<le> 1 \<and> - 1 \<le> d) \<Longrightarrow>
   filter_loop a m n i s g = filter_loop a m n (i + 1) s g"
  by (subst filter_loop.simps) auto

lemma filter_stop:
  "\<not> i < n \<Longrightarrow> filter_loop a m n i s g = Some (s, g)"
  by (subst filter_loop.simps) simp


lemma filter_loop_mono:
  "filter_loop a m n i s g = Some (s', g') \<Longrightarrow> g \<le> g'"
proof (induction a m n i s g rule: filter_loop.induct)
  case (1 a m n i s g)
  show ?case
  proof (cases "i < n")
    case False
    with "1.prems" show ?thesis by (simp add: filter_stop)
  next
    case True
    with "1.prems" obtain d where d: "c_int (a ! nat i - m) = Some d"
      by (subst (asm) filter_loop.simps) (auto split: option.splits)
    show ?thesis
    proof (cases "d \<le> 1 \<and> d \<ge> - 1")
      case inl: True
      have "filter_loop a m n (i + 1) (s + a ! nat i) (g + 1) = Some (s', g')"
        using "1.prems" True d inl by (simp add: filter_go_in)
      from "1.IH"(1) [OF True d inl this] show ?thesis by simp
    next
      case out: False
      have "filter_loop a m n (i + 1) s g = Some (s', g')"
        using "1.prems" True d out by (simp add: filter_go_out)
      from "1.IH"(2) [OF True d out this] show ?thesis .
    qed
  qed
qed

lemma filter_loop_counts:
  "filter_loop a m n i s g = Some (s', g') \<Longrightarrow> i \<le> k \<Longrightarrow> k < n \<Longrightarrow> a ! nat k = m \<Longrightarrow>
   g + 1 \<le> g'"
proof (induction a m n i s g rule: filter_loop.induct)
  case (1 a m n i s g)
  from "1.prems"(2,3) have True: "i < n" by simp
  with "1.prems"(1) obtain d where d: "c_int (a ! nat i - m) = Some d"
    by (subst (asm) filter_loop.simps) (auto split: option.splits)
  then have dv: "d = a ! nat i - m" by (simp add: c_int_def split: if_splits)
  show ?case
  proof (cases "d \<le> 1 \<and> d \<ge> - 1")
    case inl: True
    have r: "filter_loop a m n (i + 1) (s + a ! nat i) (g + 1) = Some (s', g')"
      using "1.prems"(1) True d inl by (simp add: filter_go_in)
    from filter_loop_mono [OF r] show ?thesis .
  next
    case out: False
    have r: "filter_loop a m n (i + 1) s g = Some (s', g')"
      using "1.prems"(1) True d out by (simp add: filter_go_out)
    have "i \<noteq> k" using out dv "1.prems"(4) by auto
    with "1.prems"(2) have "i + 1 \<le> k" by simp
    from "1.IH"(2) [OF True d out r this "1.prems"(3,4)] show ?thesis .
  qed
qed

lemma consensus_median_counts:
  assumes n: "0 < n" and c: "consensus a n = Some (m, s, g)"
  shows "1 \<le> g"
proof -
  from c have f: "filter_loop (insertsort a n) m n 0 0 0 = Some (s, g)"
    and m: "m = insertsort a n ! nat (n div 2)"
    by (auto simp: consensus_def median_def Let_def split: option.splits)
  have "0 \<le> n div 2" "n div 2 < n" using n by simp_all
  from filter_loop_counts [OF f this] m show ?thesis by simp
qed

lemma consensus_no_samples:
  "n \<le> 0 \<Longrightarrow> consensus a n = Some (median a n, 0, 0)"
  by (simp add: consensus_def filter_stop)

lemma filter_loop_defined:
  "(\<And>k. i \<le> k \<Longrightarrow> k < n \<Longrightarrow> c_int (a ! nat k - m) \<noteq> None) \<Longrightarrow>
   \<exists>r. filter_loop a m n i s g = Some r"
proof (induction a m n i s g rule: filter_loop.induct)
  case (1 a m n i s g)
  show ?case
  proof (cases "i < n")
    case False
    then show ?thesis by (simp add: filter_stop)
  next
    case True
    with "1.prems" [of i] obtain d where d: "c_int (a ! nat i - m) = Some d" by auto
    have rest: "\<And>k. i + 1 \<le> k \<Longrightarrow> k < n \<Longrightarrow> c_int (a ! nat k - m) \<noteq> None"
      using "1.prems" by simp
    show ?thesis
    proof (cases "d \<le> 1 \<and> d \<ge> - 1")
      case inl: True
      from "1.IH"(1) [OF True d inl rest] show ?thesis
        using True d inl by (simp add: filter_go_in)
    next
      case out: False
      from "1.IH"(2) [OF True d out rest] show ?thesis
        using True d out by (simp add: filter_go_out)
    qed
  qed
qed

text \<open>
  Under the default sanity limit no difference overflows: every cycle has a consensus.
\<close>

lemma consensus_defined:
  assumes n: "n \<le> length timedelta"
      and adm: "\<forall>x\<in>set (take n timedelta). admitted DEFAULT_TIME_LIMIT x"
  shows "\<exists>m s g. consensus timedelta (int n) = Some (m, s, g)"
proof -
  let ?a = "insertsort timedelta (int n)"
  let ?m = "median timedelta (int n)"
  from insertsort_props [OF n] have len: "length ?a = length timedelta"
    and ms: "mset (take n ?a) = mset (take n timedelta)" by simp_all
  from ms have st: "set (take n ?a) = set (take n timedelta)" by (rule mset_eq_setD)
  have bound: "\<bar>?a ! k\<bar> < DEFAULT_TIME_LIMIT" if "k < n" for k
  proof -
    have "?a ! k = take n ?a ! k" using that by simp
    moreover have "take n ?a ! k \<in> set (take n ?a)"
      using that n len by (intro nth_mem) simp
    ultimately have "?a ! k \<in> set (take n timedelta)" using st by simp
    with adm have "admitted DEFAULT_TIME_LIMIT (?a ! k)" by blast
    then show ?thesis
      by (auto simp add: admitted_def DEFAULT_TIME_LIMIT_def NO_TIME_LIMIT_def)
  qed
  have "c_int (?a ! nat k - ?m) \<noteq> None" if "0 \<le> k" "k < int n" for k
  proof -
    from that have kn: "nat k < n" by simp
    then have "0 < n" by simp
    then have "n div 2 < n" by simp
    from bound [OF this] have "\<bar>?m\<bar> < DEFAULT_TIME_LIMIT"
      by (simp add: median_def nat_div_distrib)
    with bound [OF kn] have "- INT_MAX - 1 \<le> ?a ! nat k - ?m \<and> ?a ! nat k - ?m \<le> INT_MAX"
      unfolding INT_MAX_def DEFAULT_TIME_LIMIT_def by linarith
    then show ?thesis by (simp add: c_int_def)
  qed
  from filter_loop_defined [of 0 "int n" ?a ?m 0 0, OF this]
  obtain r where "filter_loop ?a ?m (int n) 0 0 0 = Some r" by blast
  then show ?thesis by (cases r) (simp add: consensus_def)
qed




text \<open>
  C7. In a cycle with no inlier (\<^verbatim>\<open>goodtimes == 0\<close>), whatever the mode: a persistent run
  logs, sleeps \<^verbatim>\<open>minsleep\<close> and goes on with \<^verbatim>\<open>sleeptime\<close> unchanged; a single run logs and
  exits with status 1. The trace gains no call that changes the clock.
\<close>

theorem C7_no_inlier_no_mutation:
  assumes "consensus timedelta validtimes = Some (m, s, 0)"
  shows "(persistent cfg \<longrightarrow>
            cycle_end cfg os st timedelta validtimes tr =
              Ret (st\<lparr>setmode := (if setmode st \<noteq> 3 then 1 else setmode st)\<rparr>)
                  (tr @ [Printlog 1 ''No server suitable for synchronization found'',
                         Sleep (minsleep cfg)]))
       \<and> (\<not> persistent cfg \<longrightarrow>
            cycle_end cfg os st timedelta validtimes tr =
              Exit 1 (tr @ [Printlog 1 ''No server suitable for synchronization found'']))"
  using assms by (simp add: cycle_end_def res_bind_def next_cycle_def)

theorem C7_no_inlier_no_mutation_witness:
  "consensus [7, 7, 7] 0 = Some (7, 0, 0)
   \<and> cycle_end cfg_daemon os_ok (initial_state cfg_daemon 2) [7, 7, 7] 0 [] =
       Ret \<lparr>sleeptime = 1800, setmode = 1, starttime = 0, drift = 0\<rparr>
         [Printlog 1 ''No server suitable for synchronization found'', Sleep 1800]
   \<and> cycle_end cfg_precise os_ok (initial_state cfg_precise 2) [7, 7, 7] 0 [] =
       Exit 1 [Printlog 1 ''No server suitable for synchronization found'']"
proof -
  have h: "consensus [7, 7, 7] 0 = Some (7, 0, 0)"
    by (simp add: consensus_no_samples median_def insertsort_def outer_stop)
  from C7_no_inlier_no_mutation [OF h, of cfg_daemon os_ok "initial_state cfg_daemon 2" "[]"]
    C7_no_inlier_no_mutation [OF h, of cfg_precise os_ok "initial_state cfg_precise 2" "[]"] h
  show ?thesis
    by (simp add: cfg_daemon_def cfg_precise_def initial_state_def)
qed

text \<open>No inlier means no admitted sample: the median itself is always an inlier.\<close>

lemma no_inlier_iff_no_sample:
  assumes "consensus timedelta validtimes = Some (m, s, g)"
  shows "g = 0 \<longleftrightarrow> validtimes \<le> 0"
proof
  assume "g = 0"
  with consensus_median_counts [OF _ assms] show "validtimes \<le> 0" by fastforce
next
  assume "validtimes \<le> 0"
  from consensus_no_samples [OF this, of timedelta] assms show "g = 0" by simp
qed

text \<open>
  C9. The claim, as stated, fails where \<^verbatim>\<open>sumtimes\<close> is zero. Two servers in step and a third
  one 5 seconds off give \<^verbatim>\<open>sumtimes = 0\<close>, \<^verbatim>\<open>goodtimes = 2\<close>. With the precision 50000 a
  single run moves the clock by +0.05 seconds (the macro takes zero for positive), which is
  not \<open>P / 10^6\<close> times the sign of zero; a daemon applies no correction at all and doubles
  its interval.
\<close>

theorem C9_zero_sum_not_snapped:
  "consensus [0, 0, 5] 3 = Some (0, 0, 2)
   \<and> cycle_end cfg_precise os_ok (initial_state cfg_precise 1) [0, 0, 5] 3 [] =
       Exit 0 [Printlog 0 ''Adjusting %.3f seconds'', Seteuid 0,
               Adjtime \<lparr>tv_sec = 0, tv_usec = 50000\<rparr>, Seteuid 0]
   \<and> real_of_int (precision cfg_precise) / 1000000 * sgn (real_of_int 0) = 0
   \<and> cycle_end cfg_precise_daemon os_ok (initial_state cfg_precise_daemon 1) [0, 0, 5] 3 [] =
       Ret \<lparr>sleeptime = 3600, setmode = 1, starttime = 0, drift = 0\<rparr> []"
proof -
  have h: "consensus [0, 0, 5] 3 = Some (0, 0, 2)"
    by (simp add: consensus_def median_def insertsort_def outer_go outer_stop inner_go inner_stop
          insert_step_def filter_go_in filter_go_out filter_stop c_int_def INT_MAX_def)
  have one: "cycle_end cfg_precise os_ok (initial_state cfg_precise 1) [0, 0, 5] 3 [] =
       Exit 0 [Printlog 0 ''Adjusting %.3f seconds'', Seteuid 0,
               Adjtime \<lparr>tv_sec = 0, tv_usec = 50000\<rparr>, Seteuid 0]"
    by (simp add: cycle_end_def h cfg_precise_def snap_def apply_correction_def initial_state_def
          setclock_adjust sign_def long_of_double_def c_long_def LONG_MAX_def res_bind_def
          swuid_def os_ok_def after_correction_def poll_log_def next_cycle_def)
  have two: "cycle_end cfg_precise_daemon os_ok (initial_state cfg_precise_daemon 1) [0, 0, 5] 3 [] =
       Ret \<lparr>sleeptime = 3600, setmode = 1, starttime = 0, drift = 0\<rparr> []"
    by (simp add: cycle_end_def h cfg_precise_daemon_def initial_state_def increase_interval_def
          shl1_def c_int_def INT_MAX_def res_bind_def poll_log_def next_cycle_def)
  from h one two show ?thesis by simp
qed

text \<open>
  C9, amended. With a precision \<open>P > 0\<close> and a \<^verbatim>\<open>sumtimes\<close> other than zero, strictly between
  \<^verbatim>\<open>-goodtimes\<close> and \<^verbatim>\<open>goodtimes\<close>, the correction that the cycle applies is \<open>+ P / 10^6\<close>
  when \<^verbatim>\<open>sumtimes\<close> is positive and \<open>- P / 10^6\<close> when it is negative, not the mean; with
  \<open>P = 50000\<close>, \<^verbatim>\<open>sumtimes = 1\<close> and \<^verbatim>\<open>goodtimes = 2\<close> it is +0.05.
\<close>

theorem C9_snap_to_signed_precision:
  assumes "consensus timedelta validtimes = Some (m, s, g)"
      and "0 < precision cfg" and "- g < s" and "s < g" and "s \<noteq> 0"
  shows "snap (precision cfg) s g (real_of_int s / real_of_int g)
           = (if 0 < s then real_of_int (precision cfg) / 1000000
              else - (real_of_int (precision cfg) / 1000000))
       \<and> cycle_end cfg os st timedelta validtimes tr =
           res_bind
             (res_bind
                (apply_correction cfg os
                   (if 0 < s then real_of_int (precision cfg) / 1000000
                    else - (real_of_int (precision cfg) / 1000000)) st
                   (if debug cfg then tr @ [Printlog 0 ''#: %d mean: %d average: %.3f''] else tr))
                (poll_log cfg))
             (next_cycle cfg)"
proof -
  have g: "g \<noteq> 0" using assms(3,4) by arith
  have sn: "snap (precision cfg) s g (real_of_int s / real_of_int g)
      = (if 0 < s then real_of_int (precision cfg) / 1000000
         else - (real_of_int (precision cfg) / 1000000))"
    using assms(2,3,4,5) by (simp add: snap_def sign_def)
  have "cycle_end cfg os st timedelta validtimes tr =
           res_bind
             (res_bind
                (apply_correction cfg os
                   (snap (precision cfg) s g (real_of_int s / real_of_int g)) st
                   (if debug cfg then tr @ [Printlog 0 ''#: %d mean: %d average: %.3f''] else tr))
                (poll_log cfg))
             (next_cycle cfg)"
    using assms(1,5) g by (simp add: cycle_end_def Let_def)
  then show ?thesis unfolding sn by simp
qed

theorem C9_snap_to_signed_precision_witness:
  "consensus [0, 1, 5] 3 = Some (1, 1, 2) \<and> consensus [- 1, 0, 5] 3 = Some (0, - 1, 2)
   \<and> snap 50000 1 2 (1 / 2) = 1 / 20 \<and> snap 50000 (- 1) 2 (- 1 / 2) = - (1 / 20)
   \<and> cycle_end cfg_precise os_ok (initial_state cfg_precise 1) [0, 1, 5] 3 [] =
       Exit 0 [Printlog 0 ''Adjusting %.3f seconds'', Seteuid 0,
               Adjtime \<lparr>tv_sec = 0, tv_usec = 50000\<rparr>, Seteuid 0]
   \<and> cycle_end cfg_precise os_ok (initial_state cfg_precise 1) [- 1, 0, 5] 3 [] =
       Exit 0 [Printlog 0 ''Adjusting %.3f seconds'', Seteuid 0,
               Adjtime \<lparr>tv_sec = 0, tv_usec = - 50000\<rparr>, Seteuid 0]"
proof -
  have h: "consensus [0, 1, 5] 3 = Some (1, 1, 2)"
    by (simp add: consensus_def median_def insertsort_def outer_go outer_stop inner_go inner_stop
          insert_step_def filter_go_in filter_go_out filter_stop c_int_def INT_MAX_def)
  have k: "consensus [- 1, 0, 5] 3 = Some (0, - 1, 2)"
    by (simp add: consensus_def median_def insertsort_def outer_go outer_stop inner_go inner_stop
          insert_step_def filter_go_in filter_go_out filter_stop c_int_def INT_MAX_def)
  have p: "0 < precision cfg_precise" by (simp add: cfg_precise_def)
  have pos: "snap 50000 1 2 (1 / 2) = 1 / 20
     \<and> cycle_end cfg_precise os_ok (initial_state cfg_precise 1) [0, 1, 5] 3 [] =
       Exit 0 [Printlog 0 ''Adjusting %.3f seconds'', Seteuid 0,
               Adjtime \<lparr>tv_sec = 0, tv_usec = 50000\<rparr>, Seteuid 0]"
    using C9_snap_to_signed_precision [OF h p, of os_ok "initial_state cfg_precise 1" "[]"]
    by (simp add: cfg_precise_def apply_correction_def initial_state_def setclock_adjust
          long_of_double_def c_long_def LONG_MAX_def res_bind_def swuid_def os_ok_def
          after_correction_def poll_log_def next_cycle_def)
  have c: "\<lceil>- (1 / 20 :: real)\<rceil> = 0" by (simp add: ceiling_eq_iff)
  have neg: "snap 50000 (- 1) 2 (- 1 / 2) = - (1 / 20)
     \<and> cycle_end cfg_precise os_ok (initial_state cfg_precise 1) [- 1, 0, 5] 3 [] =
       Exit 0 [Printlog 0 ''Adjusting %.3f seconds'', Seteuid 0,
               Adjtime \<lparr>tv_sec = 0, tv_usec = - 50000\<rparr>, Seteuid 0]"
    using C9_snap_to_signed_precision [OF k p, of os_ok "initial_state cfg_precise 1" "[]"]
    by (simp add: cfg_precise_def apply_correction_def initial_state_def setclock_adjust
          long_of_double_def c_long_def LONG_MAX_def res_bind_def swuid_def os_ok_def
          after_correction_def poll_log_def next_cycle_def c)
  from h k pos neg show ?thesis by simp
qed

subsection \<open>The polling interval\<close>

text \<open>
  In a persistent run, a cycle with inliers whose sum is zero doubles \<^verbatim>\<open>sleeptime\<close> whenever
  it is below \<^verbatim>\<open>maxsleep\<close>; the double is not compared with \<^verbatim>\<open>maxsleep\<close>.
\<close>

lemma zero_correction_doubles:
  assumes "persistent cfg" and "consensus timedelta validtimes = Some (m, 0, g)" and "g \<noteq> 0"
      and "0 \<le> sleeptime st" and "sleeptime st < maxsleep cfg" and "2 * sleeptime st \<le> INT_MAX"
  shows "cycle_end cfg os st timedelta validtimes tr =
           Ret (st\<lparr>sleeptime := 2 * sleeptime st,
                   setmode := (if setmode st \<noteq> 3 then 1 else setmode st)\<rparr>)
               (if debug cfg then tr @ [Printlog 0 ''#: %d mean: %d average: %.3f'',
                                        Printlog 0 ''poll %ld s'']
                else tr)"
  using assms
  by (simp add: cycle_end_def increase_interval_def shl1_def c_int_def INT_MAX_def res_bind_def
        poll_log_def next_cycle_def Let_def)

lemma res_bind_Ret:
  assumes "res_bind m f = Ret y t"
  obtains x t0 where "m = Ret x t0" and "f x t0 = Ret y t"
  using assms by (cases m) (simp_all add: res_bind_def)

lemma next_cycle_sleeptime:
  "next_cycle cfg st tr = Ret st' tr' \<Longrightarrow> sleeptime st' = sleeptime st"
  by (auto simp: next_cycle_def Let_def split: if_splits)

lemma poll_log_sleeptime:
  "poll_log cfg st tr = Ret st' tr' \<Longrightarrow> sleeptime st' = sleeptime st"
  by (auto simp: poll_log_def)

lemma increase_interval_sleeptime:
  "increase_interval cfg st tr = Ret st' tr' \<Longrightarrow>
   sleeptime st' = (if sleeptime st < maxsleep cfg then 2 * sleeptime st else sleeptime st)"
  by (auto simp: increase_interval_def shl1_def c_int_def split: if_splits option.splits)

lemma after_correction_sleeptime:
  assumes "after_correction cfg os timeavg st tr = Ret st' tr'" and "persistent cfg"
  shows "sleeptime st' = minsleep cfg"
proof -
  from assms obtain st1 tr1 where "st' = st1\<lparr>sleeptime := minsleep cfg\<rparr>"
    unfolding after_correction_def by (auto elim!: res_bind_Ret split: if_splits)
  then show ?thesis by simp
qed

lemma apply_correction_sleeptime:
  assumes "apply_correction cfg os timeavg st tr = Ret st' tr'" and "persistent cfg"
  shows "sleeptime st' = minsleep cfg"
  using assms unfolding apply_correction_def
  by (auto elim!: res_bind_Ret dest: after_correction_sleeptime)

text \<open>
  What a cycle of a persistent run does to \<^verbatim>\<open>sleeptime\<close>: nothing without an inlier, the
  reset to \<^verbatim>\<open>minsleep\<close> after a correction (\<^verbatim>\<open>sumtimes\<close> not zero), the doubling otherwise.
\<close>

lemma interval_changes:
  assumes p: "persistent cfg" and c: "consensus timedelta validtimes = Some (m, s, g)"
      and r: "cycle_end cfg os st timedelta validtimes tr = Ret st' tr'"
  shows "sleeptime st' =
           (if g = 0 then sleeptime st
            else if s \<noteq> 0 then minsleep cfg
            else if sleeptime st < maxsleep cfg then 2 * sleeptime st
            else sleeptime st)"
proof -
  let ?tr1 = "if debug cfg then tr @ [Printlog 0 ''#: %d mean: %d average: %.3f''] else tr"
  let ?body = "if g \<noteq> 0 then
          res_bind
            (if s \<noteq> 0 \<or> \<not> persistent cfg then
               apply_correction cfg os (snap (precision cfg) s g (real_of_int s / real_of_int g)) st
                 ?tr1
             else increase_interval cfg st ?tr1)
            (poll_log cfg)
        else if persistent cfg then
          Ret st (tr @ [Printlog 1 ''No server suitable for synchronization found'',
                        Sleep (minsleep cfg)])
        else Exit 1 (tr @ [Printlog 1 ''No server suitable for synchronization found''])"
  have "cycle_end cfg os st timedelta validtimes tr = res_bind ?body (next_cycle cfg)"
    using c by (cases "g = 0") (simp_all add: cycle_end_def Let_def)
  with r have "res_bind ?body (next_cycle cfg) = Ret st' tr'" by simp
  then obtain st1 tr1 where b: "?body = Ret st1 tr1"
    and n: "next_cycle cfg st1 tr1 = Ret st' tr'"
    by (rule res_bind_Ret)
  have e: "sleeptime st' = sleeptime st1" using n by (rule next_cycle_sleeptime)
  show ?thesis
  proof (cases "g = 0")
    case True
    with b p e show ?thesis by simp
  next
    case False
    with b have "res_bind
            (if s \<noteq> 0 \<or> \<not> persistent cfg then
               apply_correction cfg os (snap (precision cfg) s g (real_of_int s / real_of_int g)) st
                 ?tr1
             else increase_interval cfg st ?tr1)
            (poll_log cfg) = Ret st1 tr1" by simp
    then obtain st2 tr2 where
      i: "(if s \<noteq> 0 \<or> \<not> persistent cfg then
               apply_correction cfg os (snap (precision cfg) s g (real_of_int s / real_of_int g)) st
                 ?tr1
             else increase_interval cfg st ?tr1)
          = Ret st2 tr2"
      and l: "poll_log cfg st2 tr2 = Ret st1 tr1"
      by (rule res_bind_Ret)
    have e2: "sleeptime st1 = sleeptime st2" using l by (rule poll_log_sleeptime)
    show ?thesis
    proof (cases "s = 0")
      case True
      with i p have "increase_interval cfg st ?tr1 = Ret st2 tr2"
        by simp
      from increase_interval_sleeptime [OF this] e e2 True False show ?thesis by simp
    next
      case ns: False
      with i have "apply_correction cfg os (snap (precision cfg) s g (real_of_int s / real_of_int g)) st
          ?tr1 = Ret st2 tr2"
        by simp
      from apply_correction_sleeptime [OF this p] e e2 ns False show ?thesis by simp
    qed
  qed
qed

text \<open>
  When \<^verbatim>\<open>maxsleep\<close> is \<^verbatim>\<open>minsleep\<close> times a power of two, as the defaults 1800 and 115200
  are, the interval stays one of \<open>minsleep * 2^k\<close> up to \<^verbatim>\<open>maxsleep\<close>.
\<close>

lemma interval_in_range_for_powers_of_two:
  assumes p: "persistent cfg" and c: "consensus timedelta validtimes = Some (m, s, g)"
      and r: "cycle_end cfg os st timedelta validtimes tr = Ret st' tr'"
      and pos: "0 < minsleep cfg" and mx: "maxsleep cfg = minsleep cfg * 2 ^ K"
      and inv: "\<exists>k\<le>K. sleeptime st = minsleep cfg * 2 ^ k"
  shows "\<exists>k\<le>K. sleeptime st' = minsleep cfg * 2 ^ k"
proof -
  from inv obtain k where k: "k \<le> K" "sleeptime st = minsleep cfg * 2 ^ k" by blast
  note e = interval_changes [OF p c r]
  consider (same) "sleeptime st' = sleeptime st" | (reset) "sleeptime st' = minsleep cfg"
    | (double) "sleeptime st < maxsleep cfg" "sleeptime st' = 2 * sleeptime st"
    using e by (auto split: if_splits)
  then show ?thesis
  proof cases
    case same
    with k show ?thesis by auto
  next
    case reset
    then have "sleeptime st' = minsleep cfg * 2 ^ 0" by simp
    then show ?thesis by blast
  next
    case double
    from double(1) k(2) mx pos have "(2::int) ^ k < 2 ^ K" by simp
    then have "k < K" by simp
    then have "Suc k \<le> K" by simp
    moreover have "sleeptime st' = minsleep cfg * 2 ^ Suc k" using double(2) k(2) by simp
    ultimately show ?thesis by blast
  qed
qed

text \<open>
  C1. The claim wants \<^verbatim>\<open>sleeptime\<close> within \<open>[minsleep, maxsleep]\<close> after every cycle. A daemon
  with the default minimum of 1800 and \<^verbatim>\<open>-M 2000\<close>, whose first cycle reads one sample of
  offset 0, leaves the cycle with \<^verbatim>\<open>sleeptime = 3600\<close>.
\<close>

theorem C1_backoff_exceeds_maxsleep:
  "cycle_end cfg_daemon os_ok (initial_state cfg_daemon 1) [0] 1 [] =
     Ret \<lparr>sleeptime = 3600, setmode = 1, starttime = 0, drift = 0\<rparr> []
   \<and> maxsleep cfg_daemon = 2000"
  by (simp add: cycle_end_def consensus_def median_def insertsort_def outer_stop
        filter_go_in filter_stop c_int_def INT_MAX_def cfg_daemon_def initial_state_def
        res_bind_def increase_interval_def shl1_def poll_log_def next_cycle_def)

theorem C1_backoff_exceeds_maxsleep_witness:
  "\<exists>st. cycle_end cfg_daemon os_ok (initial_state cfg_daemon 1) [0] 1 [] = Ret st []
        \<and> maxsleep cfg_daemon < sleeptime st"
  using C1_backoff_exceeds_maxsleep by simp

subsection \<open>\<^verbatim>\<open>getHTTPdate\<close>: no reading\<close>

text \<open>
  The search of the program finds the date text, and only it: \<^verbatim>\<open>strstr\<close> against the
  occurrences.
\<close>

lemma occurs_at_0: "occurs_at needle str 0 \<longleftrightarrow> take (length needle) str = needle"
proof
  assume "occurs_at needle str 0"
  then show "take (length needle) str = needle" by (simp add: occurs_at_def)
next
  assume t: "take (length needle) str = needle"
  then have "length (take (length needle) str) = length needle" by simp
  then have "length needle \<le> length str" by simp
  with t show "occurs_at needle str 0" by (simp add: occurs_at_def)
qed

lemma occurs_at_Suc: "occurs_at needle (c # cs) (Suc j) = occurs_at needle cs j"
  by (simp add: occurs_at_def)

lemma first_at_0: "first_at needle str 0 \<longleftrightarrow> take (length needle) str = needle"
  by (simp add: first_at_def occurs_at_0)

lemma first_at_Suc:
  assumes "take (length needle) (c # cs) \<noteq> needle"
  shows "first_at needle (c # cs) i \<longleftrightarrow> (\<exists>j. i = Suc j \<and> first_at needle cs j)"
proof
  assume f: "first_at needle (c # cs) i"
  have "i \<noteq> 0"
  proof
    assume "i = 0"
    with f have "first_at needle (c # cs) 0" by simp
    with assms show False by (simp add: first_at_0)
  qed
  then obtain j where i: "i = Suc j" by (cases i) auto
  have "first_at needle cs j"
    unfolding first_at_def
  proof (intro conjI allI impI)
    show "occurs_at needle cs j" using f i by (simp add: first_at_def occurs_at_Suc)
  next
    fix k assume "k < j"
    then have "Suc k < i" using i by simp
    with f have "\<not> occurs_at needle (c # cs) (Suc k)" by (simp add: first_at_def)
    then show "\<not> occurs_at needle cs k" by (simp add: occurs_at_Suc)
  qed
  with i show "\<exists>j. i = Suc j \<and> first_at needle cs j" by blast
next
  assume "\<exists>j. i = Suc j \<and> first_at needle cs j"
  then obtain j where i: "i = Suc j" and f: "first_at needle cs j" by blast
  show "first_at needle (c # cs) i"
    unfolding first_at_def
  proof (intro conjI allI impI)
    show "occurs_at needle (c # cs) i" using f i by (simp add: first_at_def occurs_at_Suc)
  next
    fix k assume k: "k < i"
    show "\<not> occurs_at needle (c # cs) k"
    proof (cases k)
      case 0
      with assms show ?thesis by (simp add: occurs_at_0)
    next
      case (Suc k')
      with k i have "k' < j" by simp
      with f have "\<not> occurs_at needle cs k'" by (simp add: first_at_def)
      with Suc show ?thesis by (simp add: occurs_at_Suc)
    qed
  qed
qed

lemma first_at_unique:
  assumes "first_at needle str i" and "first_at needle str j"
  shows "i = j"
proof (rule ccontr)
  assume "i \<noteq> j"
  then consider "i < j" | "j < i" by linarith
  then show False using assms by cases (auto simp: first_at_def)
qed

lemma strstr_Some_iff:
  assumes "needle \<noteq> []"
  shows "strstr str needle = Some s \<longleftrightarrow> (\<exists>i\<le>length str. first_at needle str i \<and> s = drop i str)"
proof (induction str)
  case Nil
  with assms show ?case by (auto simp: first_at_def occurs_at_def)
next
  case (Cons c cs)
  show ?case
  proof (cases "take (length needle) (c # cs) = needle")
    case True
    then have f0: "first_at needle (c # cs) 0" by (simp add: first_at_0)
    have l: "strstr (c # cs) needle = Some (c # cs)" using True by simp
    have "(\<exists>i\<le>length (c # cs). first_at needle (c # cs) i \<and> s = drop i (c # cs)) \<longleftrightarrow> s = c # cs"
    proof
      assume "\<exists>i\<le>length (c # cs). first_at needle (c # cs) i \<and> s = drop i (c # cs)"
      then obtain i where i: "first_at needle (c # cs) i" "s = drop i (c # cs)" by blast
      from first_at_unique [OF i(1) f0] i(2) show "s = c # cs" by simp
    next
      assume "s = c # cs"
      with f0 have "0 \<le> length (c # cs) \<and> first_at needle (c # cs) 0 \<and> s = drop 0 (c # cs)"
        by simp
      then show "\<exists>i\<le>length (c # cs). first_at needle (c # cs) i \<and> s = drop i (c # cs)"
        by (rule exI)
    qed
    with l show ?thesis by auto
  next
    case False
    then have l: "strstr (c # cs) needle = strstr cs needle" by simp
    have "(\<exists>i\<le>length (c # cs). first_at needle (c # cs) i \<and> s = drop i (c # cs))
        \<longleftrightarrow> (\<exists>j\<le>length cs. first_at needle cs j \<and> s = drop j cs)"
    proof
      assume "\<exists>i\<le>length (c # cs). first_at needle (c # cs) i \<and> s = drop i (c # cs)"
      then obtain i where i: "i \<le> length (c # cs)" "first_at needle (c # cs) i"
        "s = drop i (c # cs)" by blast
      from i(2) obtain j where j: "i = Suc j" "first_at needle cs j"
        unfolding first_at_Suc [OF False] by blast
      with i(1,3) have "j \<le> length cs \<and> first_at needle cs j \<and> s = drop j cs" by simp
      then show "\<exists>j\<le>length cs. first_at needle cs j \<and> s = drop j cs" by (rule exI)
    next
      assume "\<exists>j\<le>length cs. first_at needle cs j \<and> s = drop j cs"
      then obtain j where j: "j \<le> length cs" "first_at needle cs j" "s = drop j cs" by blast
      from j(2) have "first_at needle (c # cs) (Suc j)"
        unfolding first_at_Suc [OF False] by blast
      with j(1,3) have "Suc j \<le> length (c # cs) \<and> first_at needle (c # cs) (Suc j)
          \<and> s = drop (Suc j) (c # cs)" by simp
      then show "\<exists>i\<le>length (c # cs). first_at needle (c # cs) i \<and> s = drop i (c # cs)"
        by (rule exI)
    qed
    with l Cons.IH show ?thesis by simp
  qed
qed

lemma absent_Cons:
  "absent needle (c # cs) \<longleftrightarrow> take (length needle) (c # cs) \<noteq> needle \<and> absent needle cs"
proof
  assume a: "absent needle (c # cs)"
  then have "\<not> occurs_at needle (c # cs) 0" by (simp add: absent_def)
  moreover have "\<not> occurs_at needle cs k" if "k \<le> length cs" for k
  proof -
    from that a have "\<not> occurs_at needle (c # cs) (Suc k)" by (simp add: absent_def)
    then show ?thesis by (simp add: occurs_at_Suc)
  qed
  ultimately show "take (length needle) (c # cs) \<noteq> needle \<and> absent needle cs"
    by (simp add: occurs_at_0 absent_def)
next
  assume r: "take (length needle) (c # cs) \<noteq> needle \<and> absent needle cs"
  show "absent needle (c # cs)"
    unfolding absent_def
  proof (intro allI impI)
    fix j assume j: "j \<le> length (c # cs)"
    show "\<not> occurs_at needle (c # cs) j"
    proof (cases j)
      case 0
      with r show ?thesis by (simp add: occurs_at_0)
    next
      case (Suc k)
      with j r show ?thesis by (simp add: occurs_at_Suc absent_def)
    qed
  qed
qed

lemma strstr_None_iff:
  assumes "needle \<noteq> []"
  shows "strstr str needle = None \<longleftrightarrow> absent needle str"
proof (induction str)
  case Nil
  with assms show ?case by (simp add: absent_def occurs_at_def)
next
  case (Cons c cs)
  then show ?case by (simp add: absent_Cons)
qed

lemma located_iff:
  assumes n1: "n1 \<noteq> []" and n2: "n2 \<noteq> []"
  shows "(\<exists>i\<le>length b. p = drop i b \<and> (first_at n1 b i \<or> (absent n1 b \<and> first_at n2 b i)))
     \<longleftrightarrow> (case strstr b n1 of Some q \<Rightarrow> p = q | None \<Rightarrow> strstr b n2 = Some p)"
proof (cases "strstr b n1")
  case None
  then have a: "absent n1 b" using n1 by (simp add: strstr_None_iff)
  have nf: "\<not> first_at n1 b i" if "i \<le> length b" for i
    using that a by (simp add: absent_def first_at_def)
  have "(\<exists>i\<le>length b. p = drop i b \<and> (first_at n1 b i \<or> (absent n1 b \<and> first_at n2 b i)))
      \<longleftrightarrow> (\<exists>i\<le>length b. first_at n2 b i \<and> p = drop i b)"
    using a nf by blast
  also have "\<dots> \<longleftrightarrow> strstr b n2 = Some p" using n2 by (simp add: strstr_Some_iff)
  finally show ?thesis using None by simp
next
  case (Some q)
  then obtain i where i: "i \<le> length b" "first_at n1 b i" "q = drop i b"
    using n1 by (auto simp: strstr_Some_iff)
  from i(1,2) have na: "\<not> absent n1 b" unfolding absent_def first_at_def by blast
  have "(\<exists>j\<le>length b. p = drop j b \<and> (first_at n1 b j \<or> (absent n1 b \<and> first_at n2 b j)))
      \<longleftrightarrow> p = q"
  proof
    assume "\<exists>j\<le>length b. p = drop j b \<and> (first_at n1 b j \<or> (absent n1 b \<and> first_at n2 b j))"
    then obtain j where j: "p = drop j b" "first_at n1 b j" using na by blast
    from first_at_unique [OF j(2) i(2)] j(1) i(3) show "p = q" by simp
  next
    assume "p = q"
    with i have "i \<le> length b \<and> p = drop i b \<and> (first_at n1 b i \<or> (absent n1 b \<and> first_at n2 b i))"
      by simp
    then show "\<exists>j\<le>length b. p = drop j b \<and> (first_at n1 b j \<or> (absent n1 b \<and> first_at n2 b j))"
      by (rule exI)
  qed
  then show ?thesis using Some by simp
qed

lemma date_text_iff:
  "date_text buffer pdate \<longleftrightarrow>
     (case strstr buffer ''Date: '' of
        Some p \<Rightarrow> pdate = p
      | None \<Rightarrow> strstr buffer ''date: '' = Some pdate)"
  unfolding date_text_def by (rule located_iff) simp_all

lemma find_date_Some_iff:
  "find_date buffer = Some pdate \<longleftrightarrow> date_text buffer pdate \<and> 35 \<le> length pdate"
proof (cases "strstr buffer ''Date: ''")
  case None
  show ?thesis
  proof (cases "strstr buffer ''date: ''")
    case n: None
    with None show ?thesis by (simp add: find_date_def date_text_iff)
  next
    case (Some q)
    with None show ?thesis by (auto simp add: find_date_def date_text_iff)
  qed
next
  case (Some q)
  then show ?thesis by (auto simp add: find_date_def date_text_iff)
qed

lemma find_date_None_iff:
  "find_date buffer = None \<longleftrightarrow> (\<forall>pdate. date_text buffer pdate \<longrightarrow> length pdate < 35)"
proof -
  have "find_date buffer = None \<longleftrightarrow> (\<forall>pdate. find_date buffer \<noteq> Some pdate)" by auto
  also have "\<dots> \<longleftrightarrow> (\<forall>pdate. date_text buffer pdate \<longrightarrow> length pdate < 35)"
    unfolding find_date_Some_iff by (simp add: not_le)
  finally show ?thesis .
qed


text \<open>
  The loop over the addresses: it connects when one address does; it ends with \<^verbatim>\<open>rc\<close> not
  zero when none does and some \<^verbatim>\<open>connect\<close> was made; when no socket can be made at all,
  \<^verbatim>\<open>rc\<close> stays as it was.
\<close>

lemma connect_loop_connects:
  "Connects \<in> set res \<Longrightarrow> connect_loop rc conn res = (0, True)"
  by (induction rc conn res rule: connect_loop.induct) auto

lemma connect_loop_refused:
  "Connects \<notin> set res \<Longrightarrow> Connect_fails \<in> set res \<Longrightarrow> connect_loop rc conn res = (- 1, False)"
proof (induction rc conn res rule: connect_loop.induct)
  case (3 rc conn res)
  show ?case
  proof (cases "Connect_fails \<in> set res")
    case True
    with 3 show ?thesis by simp
  next
    case False
    with "3.prems" have "set res \<subseteq> {Socket_fails}"
      by (auto intro: address.exhaust)
    then have "connect_loop (- 1) False res = (- 1, False)"
      by (induction res) auto
    then show ?thesis by simp
  qed
qed auto

lemma connect_loop_no_socket:
  "res \<noteq> [] \<Longrightarrow> set res \<subseteq> {Socket_fails} \<Longrightarrow> connect_loop rc conn res = (rc, False)"
proof (induction rc conn res rule: connect_loop.induct)
  case (2 rc conn res)
  then show ?case by (cases res) auto
qed auto

lemma unreachable_returns_zero:
  assumes "getaddrinfo_rc net \<noteq> 0 \<or> fst (connect_loop 0 False (addresses net)) \<noteq> 0"
  shows "getHTTPdate dbg net tr =
           (0, tr @ [Printlog 1 (if getaddrinfo_rc net \<noteq> 0 then ''%s host or service unavailable''
                                 else ''%s connection failed'')])"
  using assms by (auto simp: getHTTPdate_def Let_def split: prod.splits)

lemma received_unfold:
  assumes "getaddrinfo_rc net = 0" and "connect_loop 0 False (addresses net) = (0, True)"
      and "transfer net = Received buffer"
  shows "getHTTPdate dbg net tr =
    (case find_date buffer of
       None \<Rightarrow> (LONG_MAX - tv_sec (tod_reply net), tr @ [Printlog 1 ''%s no timestamp''])
     | Some pdate \<Rightarrow>
        (let remote_time = take 24 (drop 11 pdate);
             (sec, tr2) =
               (case strptime_gm net remote_time of
                  Some t \<Rightarrow> (t, tr)
                | None \<Rightarrow> (LONG_MAX, tr @ [Printlog 1 ''%s unknown time format'']))
         in (sec - tv_sec (tod_reply net),
             if dbg then tr2 @ [Printlog 0 ''%-25s %s %s (%.3f) => %li''] else tr2)))"
  using assms by (simp add: getHTTPdate_def getHTTP_def Let_def)




text \<open>
  The date text need not be a Date header: the text \<^verbatim>\<open>"Date: "\<close> inside another header is
  read as the date, and the offset is returned with nothing logged.
\<close>

lemma date_inside_another_header:
  "getHTTPdate False net_other_header [] = (- 100, [])"
  by (simp add: net_other_header_def getHTTPdate_def getHTTP_def find_date_def crlf_def
        libc_example_def Let_def)

text \<open>
  C4. The claim, as stated, fails: a name that does not resolve and a server whose date
  equals the local time both return 0.
\<close>

theorem C4_unreachable_equals_in_sync:
  "fst (getHTTPdate False net_unresolved []) = fst (getHTTPdate False net_in_sync [])"
  by (simp add: net_unresolved_def net_in_sync_def getHTTPdate_def getHTTP_def find_date_def
        crlf_def libc_example_def LONG_MAX_def Let_def)

text \<open>
  C4, amended. When the name does not resolve, or when no address connects and \<^verbatim>\<open>connect\<close>
  was refused for at least one address that got a socket, \<^verbatim>\<open>getHTTPdate\<close> logs the failure
  and returns 0 ("assume correct time"), which is also what it returns for a reachable
  source whose date text holds the local time: the value returned does not tell the two
  apart.
\<close>

theorem C4_unreachable_same_as_in_sync:
  assumes "getaddrinfo_rc net1 \<noteq> 0
           \<or> (Connects \<notin> set (addresses net1) \<and> Connect_fails \<in> set (addresses net1))"
      and "getaddrinfo_rc net2 = 0" and "Connects \<in> set (addresses net2)"
      and "transfer net2 = Received buffer"
      and "date_text buffer pdate" and "35 \<le> length pdate"
      and "strptime_gm net2 (take 24 (drop 11 pdate)) = Some (tv_sec (tod_reply net2))"
  shows "getHTTPdate dbg net1 tr =
           (0, tr @ [Printlog 1 (if getaddrinfo_rc net1 \<noteq> 0 then ''%s host or service unavailable''
                                 else ''%s connection failed'')])
       \<and> fst (getHTTPdate dbg net2 tr) = 0"
proof -
  have "getaddrinfo_rc net1 \<noteq> 0 \<or> fst (connect_loop 0 False (addresses net1)) \<noteq> 0"
    using assms(1) by (auto simp: connect_loop_refused)
  then have one: "getHTTPdate dbg net1 tr =
           (0, tr @ [Printlog 1 (if getaddrinfo_rc net1 \<noteq> 0 then ''%s host or service unavailable''
                                 else ''%s connection failed'')])"
    by (rule unreachable_returns_zero)
  have cl: "connect_loop 0 False (addresses net2) = (0, True)"
    using assms(3) by (rule connect_loop_connects)
  have fd: "find_date buffer = Some pdate"
    using assms(5,6) by (simp add: find_date_Some_iff)
  have two: "fst (getHTTPdate dbg net2 tr) = 0"
    using fd assms(7) by (simp add: received_unfold [OF assms(2) cl assms(4)] Let_def)
  from one two show ?thesis ..
qed

theorem C4_unreachable_same_as_in_sync_witness:
  "getHTTPdate False net_unresolved [] = (0, [Printlog 1 ''%s host or service unavailable''])
   \<and> getHTTPdate False net_refused [] = (0, [Printlog 1 ''%s connection failed''])
   \<and> fst (getHTTPdate False net_in_sync []) = 0"
proof -
  let ?buffer = "''HTTP/1.1 200 OK'' @ crlf @ ''Date: Fri, 30 Oct 2026 12:00:00 GMT'' @ crlf @ crlf"
  let ?pdate = "''Date: Fri, 30 Oct 2026 12:00:00 GMT'' @ crlf @ crlf"
  have u: "getaddrinfo_rc net_unresolved \<noteq> 0
      \<or> (Connects \<notin> set (addresses net_unresolved) \<and> Connect_fails \<in> set (addresses net_unresolved))"
    by (simp add: net_unresolved_def)
  have r: "getaddrinfo_rc net_refused \<noteq> 0
      \<or> (Connects \<notin> set (addresses net_refused) \<and> Connect_fails \<in> set (addresses net_refused))"
    by (simp add: net_refused_def)
  have h2: "getaddrinfo_rc net_in_sync = 0" by (simp add: net_in_sync_def)
  have h3: "Connects \<in> set (addresses net_in_sync)" by (simp add: net_in_sync_def)
  have h4: "transfer net_in_sync = Received ?buffer" by (simp add: net_in_sync_def)
  have h5: "date_text ?buffer ?pdate" by (simp add: date_text_iff crlf_def)
  have h6: "35 \<le> length ?pdate" by (simp add: crlf_def)
  have h7: "strptime_gm net_in_sync (take 24 (drop 11 ?pdate)) = Some (tv_sec (tod_reply net_in_sync))"
    by (simp add: net_in_sync_def libc_example_def crlf_def)
  from C4_unreachable_same_as_in_sync [OF u h2 h3 h4 h5 h6 h7, of False "[]"]
    C4_unreachable_same_as_in_sync [OF r h2 h3 h4 h5 h6 h7, of False "[]"]
  show ?thesis by (simp add: net_unresolved_def net_refused_def)
qed

text \<open>
  When no socket can be made for any address, \<^verbatim>\<open>rc\<close> is still the 0 of \<^verbatim>\<open>getaddrinfo\<close>: the
  program goes on, fails to send, and returns \<^verbatim>\<open>LONG_MAX\<close> minus the time read before.
\<close>

lemma no_socket_is_not_zero:
  "getHTTPdate False net_no_socket [] =
     (9223372035061414207,
      [Printlog 1 ''Error sending'', Printlog 1 ''error getting data from %s:%s''])"
  by (simp add: net_no_socket_def getHTTPdate_def getHTTP_def LONG_MAX_def)

text \<open>
  What becomes of the two values in \<^verbatim>\<open>main\<close>, under the default sanity limit: the 0 of an
  unreachable source is admitted as a sample; the \<^verbatim>\<open>LONG_MAX\<close> value, once stored in an
  \<^verbatim>\<open>int\<close>, is \<open>- (t + 1)\<close> and is left out, for a clock later than the end of 1970.
\<close>

lemma unreachable_is_admitted:
  "admitted DEFAULT_TIME_LIMIT (int_of_long 0)"
  by (simp add: admitted_def int_of_long_def DEFAULT_TIME_LIMIT_def NO_TIME_LIMIT_def)

lemma int_of_no_reading:
  assumes "0 \<le> t" and "t \<le> INT_MAX"
  shows "int_of_long (LONG_MAX - t) = - (t + 1)"
proof -
  have "LONG_MAX - t + 2147483648 = (2147483647 - t) + 2147483648 * 4294967296"
    by (simp add: LONG_MAX_def)
  then have "(LONG_MAX - t + 2147483648) mod 4294967296
      = ((2147483647 - t) + 2147483648 * 4294967296) mod 4294967296"
    by (simp only:)
  also have "\<dots> = (2147483647 - t) mod 4294967296"
    by (simp only: mod_mult_self1)
  also have "\<dots> = 2147483647 - t"
    using assms by (intro mod_pos_pos_trivial) (simp_all add: INT_MAX_def)
  finally have "(LONG_MAX - t + 2147483648) mod 4294967296 = 2147483647 - t" .
  then show ?thesis unfolding int_of_long_def by simp
qed

lemma no_reading_is_left_out:
  assumes "DEFAULT_TIME_LIMIT - 1 \<le> t" and "t \<le> INT_MAX"
  shows "\<not> admitted DEFAULT_TIME_LIMIT (int_of_long (LONG_MAX - t))"
proof -
  have "0 \<le> t" using assms(1) by (simp add: DEFAULT_TIME_LIMIT_def)
  from int_of_no_reading [OF this assms(2)] assms(1) show ?thesis
    by (simp add: admitted_def DEFAULT_TIME_LIMIT_def NO_TIME_LIMIT_def)
qed

end
